theory Spec2Isabelle
  imports Complex_Main "HOL-Library.AList"
begin

section \<open>Rows of the record store\<close>

text \<open>
  The store hands out \<^verbatim>\<open>sqlite3.Row\<close> values.  A column that is \<^verbatim>\<open>NULL\<close> reads as
  Python's \<^verbatim>\<open>None\<close>, modelled by \<open>None\<close>; ids are integers assigned by the store.
\<close>

type_synonym node = int

record entry_row =
  entry_id :: int
  title :: "string option"
  description :: "string option"
  category :: "string option"
  tags :: "string option"
  synonyms :: "string option"

record rel_row =
  rel_id :: int
  entry_a :: int
  entry_b :: int
  rel_type :: "string option"

text \<open>Python's \<^verbatim>\<open>v or d\<close> on an optional string: \<^verbatim>\<open>None\<close> and \<^verbatim>\<open>""\<close> are falsy.\<close>

definition py_or :: "string option \<Rightarrow> string \<Rightarrow> string" where
  "py_or v d = (case v of None \<Rightarrow> d | Some s \<Rightarrow> if s = [] then d else s)"

text \<open>Decimal rendering of an integer, as an f-string does it.\<close>

definition digit_char :: "nat \<Rightarrow> char" where
  "digit_char d = ''0123456789'' ! d"

fun digits_of :: "nat \<Rightarrow> string" where
  "digits_of n = (if n < 10 then [digit_char n]
                  else digits_of (n div 10) @ [digit_char (n mod 10)])"

declare digits_of.simps [simp del]

definition py_str_int :: "int \<Rightarrow> string" where
  "py_str_int i = (if i < 0 then CHR ''-'' # digits_of (nat (- i)) else digits_of (nat i))"

section \<open>The directed graph of networkx\<close>

text \<open>
  \<^verbatim>\<open>nx.DiGraph\<close> keeps three insertion-ordered dictionaries: \<^verbatim>\<open>_node\<close> (node to
  attribute dictionary), \<^verbatim>\<open>_succ\<close> and \<^verbatim>\<open>_pred\<close> (node to a dictionary from neighbour
  to edge data).  An ordered dictionary is an association list in which a key is
  written in place when present and appended otherwise, which is what
  \<^const>\<open>AList.update\<close> does.  A node's attributes are its \<^verbatim>\<open>label\<close> and
  \<^verbatim>\<open>category\<close>, each possibly absent; the data of an edge is its \<^verbatim>\<open>label\<close>.
\<close>

datatype error = NetworkXError

record node_attrs =
  label :: "string option"
  node_category :: "string option"

definition no_attrs :: node_attrs where
  "no_attrs = \<lparr>label = None, node_category = None\<rparr>"

text \<open>\<^verbatim>\<open>dict.update\<close> on attribute dictionaries: the keys of the argument win.\<close>

definition attrs_update :: "node_attrs \<Rightarrow> node_attrs \<Rightarrow> node_attrs" where
  "attrs_update old new =
     \<lparr>label = (case label new of None \<Rightarrow> label old | Some l \<Rightarrow> Some l),
      node_category = (case node_category new of None \<Rightarrow> node_category old | Some c \<Rightarrow> Some c)\<rparr>"

type_synonym adjacency = "(node \<times> (node \<times> string) list) list"

record digraph =
  g_node :: "(node \<times> node_attrs) list"
  g_succ :: adjacency
  g_pred :: adjacency

definition DiGraph :: digraph where
  "DiGraph = \<lparr>g_node = [], g_succ = [], g_pred = []\<rparr>"

definition keys :: "('k \<times> 'v) list \<Rightarrow> 'k list" where
  "keys d = map fst d"

text \<open>\<^verbatim>\<open>d.get(k, {})\<close> on a dictionary of dictionaries.\<close>

definition get_or_empty :: "('k \<times> 'v list) list \<Rightarrow> 'k \<Rightarrow> 'v list" where
  "get_or_empty d k = (case map_of d k of None \<Rightarrow> [] | Some v \<Rightarrow> v)"

text \<open>\<^verbatim>\<open>G.nodes\<close> iterates the keys of \<^verbatim>\<open>_node\<close>; \<^verbatim>\<open>n in G.nodes\<close> looks the key up there.\<close>

definition nodes :: "digraph \<Rightarrow> node list" where
  "nodes G = keys (g_node G)"

definition has_node :: "digraph \<Rightarrow> node \<Rightarrow> bool" where
  "has_node G n \<longleftrightarrow> n \<in> set (nodes G)"

definition add_node :: "node \<Rightarrow> node_attrs \<Rightarrow> digraph \<Rightarrow> digraph" where
  "add_node n attrs G =
     (if n \<notin> set (keys (g_succ G))
      then G\<lparr>g_succ := AList.update n [] (g_succ G),
             g_pred := AList.update n [] (g_pred G),
             g_node := AList.update n (attrs_update no_attrs attrs) (g_node G)\<rparr>
      else G\<lparr>g_node := AList.update n
                 (attrs_update (case map_of (g_node G) n of None \<Rightarrow> no_attrs | Some a \<Rightarrow> a) attrs)
                 (g_node G)\<rparr>)"

text \<open>\<^verbatim>\<open>add_edge\<close> first creates an endpoint that is not yet a node, with no attributes.\<close>

definition ensure_node :: "node \<Rightarrow> digraph \<Rightarrow> digraph" where
  "ensure_node n G =
     (if n \<notin> set (keys (g_succ G))
      then G\<lparr>g_succ := AList.update n [] (g_succ G),
             g_pred := AList.update n [] (g_pred G),
             g_node := AList.update n no_attrs (g_node G)\<rparr>
      else G)"

definition add_edge :: "node \<Rightarrow> node \<Rightarrow> string \<Rightarrow> digraph \<Rightarrow> digraph" where
  "add_edge u v lbl G =
     (let G1 = ensure_node u G;
          G2 = ensure_node v G1;
          G3 = G2\<lparr>g_succ := AList.update u (AList.update v lbl (get_or_empty (g_succ G2) u)) (g_succ G2)\<rparr>
      in G3\<lparr>g_pred := AList.update v (AList.update u lbl (get_or_empty (g_pred G3) v)) (g_pred G3)\<rparr>)"

text \<open>\<^verbatim>\<open>G.edges(data=True)\<close>: for every node in order, its successors in order.\<close>

definition edges :: "digraph \<Rightarrow> (node \<times> node \<times> string) list" where
  "edges G = concat (map (\<lambda>(u, nbrs). map (\<lambda>(v, d). (u, v, d)) nbrs) (g_succ G))"

definition successors :: "digraph \<Rightarrow> node \<Rightarrow> error + node list" where
  "successors G n = (case map_of (g_succ G) n of None \<Rightarrow> Inl NetworkXError | Some nbrs \<Rightarrow> Inr (keys nbrs))"

definition predecessors :: "digraph \<Rightarrow> node \<Rightarrow> error + node list" where
  "predecessors G n = (case map_of (g_pred G) n of None \<Rightarrow> Inl NetworkXError | Some nbrs \<Rightarrow> Inr (keys nbrs))"

text \<open>\<^verbatim>\<open>G[u][v]["label"]\<close>, when the edge is there.\<close>

definition edge_label :: "digraph \<Rightarrow> node \<Rightarrow> node \<Rightarrow> string option" where
  "edge_label G u v = (case map_of (g_succ G) u of None \<Rightarrow> None | Some nbrs \<Rightarrow> map_of nbrs v)"

text \<open>
  What every \<^verbatim>\<open>DiGraph\<close> satisfies: the three dictionaries have the same keys in the same
  order, and the neighbours recorded for a node are nodes.
\<close>

definition wf_adjacency :: "node list \<Rightarrow> adjacency \<Rightarrow> bool" where
  "wf_adjacency ns adj \<longleftrightarrow>
     keys adj = ns \<and> (\<forall>(u, nbrs) \<in> set adj. distinct (keys nbrs) \<and> set (keys nbrs) \<subseteq> set ns)"

definition wf_digraph :: "digraph \<Rightarrow> bool" where
  "wf_digraph G \<longleftrightarrow>
     distinct (nodes G) \<and> wf_adjacency (nodes G) (g_succ G) \<and> wf_adjacency (nodes G) (g_pred G)"

text \<open>
  \<^verbatim>\<open>add_edge\<close> writes one data dictionary into \<^verbatim>\<open>_succ[u][v]\<close> and \<^verbatim>\<open>_pred[v][u]\<close>, so in a
  \<^verbatim>\<open>DiGraph\<close> the two dictionaries record the same edges with the same data.
\<close>

definition pred_label :: "digraph \<Rightarrow> node \<Rightarrow> node \<Rightarrow> string option" where
  "pred_label G v u = map_of (get_or_empty (g_pred G) v) u"

definition succ_pred_agree :: "digraph \<Rightarrow> bool" where
  "succ_pred_agree G \<longleftrightarrow>
     (\<forall>(u, nbrs) \<in> set (g_succ G). \<forall>(v, d) \<in> set nbrs. pred_label G v u = Some d) \<and>
     (\<forall>(v, nbrs) \<in> set (g_pred G). \<forall>(u, d) \<in> set nbrs. edge_label G u v = Some d)"

section \<open>Graph builder (graph.py)\<close>

definition add_entry_node :: "entry_row \<Rightarrow> digraph \<Rightarrow> digraph" where
  "add_entry_node e G =
     (let entry_id = entry_id e;
          title = py_or (title e) (''ID '' @ py_str_int entry_id);
          category = py_or (category e) ''default''
      in add_node entry_id \<lparr>label = Some title, node_category = Some category\<rparr> G)"

definition add_relationship_edge :: "rel_row \<Rightarrow> digraph \<Rightarrow> digraph" where
  "add_relationship_edge r G =
     (let a = entry_a r;
          b = entry_b r;
          rel_type = py_or (rel_type r) ''relationship''
      in if has_node G a \<and> has_node G b then add_edge a b rel_type G else G)"

definition build_graph :: "entry_row list \<Rightarrow> rel_row list \<Rightarrow> digraph" where
  "build_graph entries relationships =
     fold add_relationship_edge relationships (fold add_entry_node entries DiGraph)"

section \<open>Record store (database.py)\<close>

text \<open>
  The two tables as lists of rows.  \<^verbatim>\<open>DELETE FROM t WHERE c\<close> removes the rows that
  satisfy \<open>c\<close> and keeps the others in place.
\<close>

record database =
  entries :: "entry_row list"
  relationships :: "rel_row list"

definition delete_entry_and_relationships :: "int \<Rightarrow> database \<Rightarrow> database" where
  "delete_entry_and_relationships eid db =
     (let db1 = db\<lparr>relationships :=
                     filter (\<lambda>r. \<not> (entry_a r = eid \<or> entry_b r = eid)) (relationships db)\<rparr>
      in db1\<lparr>entries := filter (\<lambda>e. entry_id e \<noteq> eid) (entries db1)\<rparr>)"

section \<open>Graph viewer (graph_viewer.py)\<close>

text \<open>
  \<^verbatim>\<open>G.to_undirected()\<close> builds an \<^verbatim>\<open>nx.Graph\<close>: it copies the nodes in order, then adds
  every edge of \<^verbatim>\<open>G.edges\<close> in order, writing each one into the adjacency of both endpoints.
\<close>

record graph =
  ug_node :: "(node \<times> node_attrs) list"
  ug_adj :: adjacency

definition Graph :: graph where
  "Graph = \<lparr>ug_node = [], ug_adj = []\<rparr>"

definition ug_ensure_node :: "node \<Rightarrow> graph \<Rightarrow> graph" where
  "ug_ensure_node n UG =
     (if n \<notin> set (keys (ug_node UG))
      then UG\<lparr>ug_adj := AList.update n [] (ug_adj UG),
              ug_node := AList.update n no_attrs (ug_node UG)\<rparr>
      else UG)"

definition ug_add_node :: "node \<Rightarrow> node_attrs \<Rightarrow> graph \<Rightarrow> graph" where
  "ug_add_node n attrs UG =
     (let UG1 = ug_ensure_node n UG
      in UG1\<lparr>ug_node := AList.update n
                 (attrs_update (case map_of (ug_node UG1) n of None \<Rightarrow> no_attrs | Some a \<Rightarrow> a) attrs)
                 (ug_node UG1)\<rparr>)"

definition ug_add_edge :: "node \<Rightarrow> node \<Rightarrow> string \<Rightarrow> graph \<Rightarrow> graph" where
  "ug_add_edge u v d UG =
     (let UG1 = ug_ensure_node u UG;
          UG2 = ug_ensure_node v UG1;
          UG3 = UG2\<lparr>ug_adj := AList.update u (AList.update v d (get_or_empty (ug_adj UG2) u)) (ug_adj UG2)\<rparr>
      in UG3\<lparr>ug_adj := AList.update v (AList.update u d (get_or_empty (ug_adj UG3) v)) (ug_adj UG3)\<rparr>)"

definition to_undirected :: "digraph \<Rightarrow> graph" where
  "to_undirected G =
     fold (\<lambda>(u, v, d). ug_add_edge u v d) (edges G)
       (fold (\<lambda>(n, a). ug_add_node n a) (g_node G) Graph)"

text \<open>\<^verbatim>\<open>UG.neighbors(n)\<close> raises \<^verbatim>\<open>NetworkXError\<close> when \<open>n\<close> is not in the graph.\<close>

definition neighbors :: "graph \<Rightarrow> node \<Rightarrow> error + node list" where
  "neighbors UG n = (case map_of (ug_adj UG) n of None \<Rightarrow> Inl NetworkXError | Some nbrs \<Rightarrow> Inr (keys nbrs))"

text \<open>
  \<^verbatim>\<open>UG.degree(n)\<close> for a node of the graph: the number of neighbours, a self-loop counting
  twice.  (For an \<open>n\<close> outside the graph networkx returns a view, not a number; the layout
  asks only for nodes it has already looked up in the graph.)
\<close>

definition degree :: "graph \<Rightarrow> node \<Rightarrow> nat" where
  "degree UG n = (case map_of (ug_adj UG) n of None \<Rightarrow> 0
                  | Some nbrs \<Rightarrow> length nbrs + (if n \<in> set (keys nbrs) then 1 else 0))"

subsection \<open>Rooted tree layout\<close>

text \<open>
  \<^verbatim>\<open>layers\<close> is a dictionary from depth to the list of nodes found at that depth;
  \<^verbatim>\<open>layers.setdefault(depth, []).append(node)\<close> is \<open>layers_append\<close>.  The inner \<^verbatim>\<open>for\<close>
  loop over the neighbours is \<open>visit_neighbors\<close>, the \<^verbatim>\<open>while queue\<close> loop is \<open>bfs\<close>.
\<close>

type_synonym layers = "(int \<times> node list) list"

definition layers_append :: "int \<Rightarrow> node \<Rightarrow> layers \<Rightarrow> layers" where
  "layers_append depth n layers = AList.update depth (get_or_empty layers depth @ [n]) layers"

fun visit_neighbors :: "node list \<Rightarrow> int \<Rightarrow> node set \<times> (node \<times> int) list \<Rightarrow> node set \<times> (node \<times> int) list" where
  "visit_neighbors [] depth (visited, queue) = (visited, queue)"
| "visit_neighbors (neighbor # rest) depth (visited, queue) =
     (if neighbor \<notin> visited
      then visit_neighbors rest depth (insert neighbor visited, queue @ [(neighbor, depth + 1)])
      else visit_neighbors rest depth (visited, queue))"

text \<open>The nodes an adjacency dictionary mentions bound the traversal.\<close>

definition mentioned :: "graph \<Rightarrow> node set" where
  "mentioned UG = set (keys (ug_adj UG)) \<union> (\<Union>(u, nbrs) \<in> set (ug_adj UG). set (keys nbrs))"

lemma finite_mentioned: "finite (mentioned UG)"
  by (auto simp: mentioned_def)

lemma neighbors_mentioned: "neighbors UG n = Inr nbrs \<Longrightarrow> set nbrs \<subseteq> mentioned UG"
  by (auto simp: neighbors_def mentioned_def split: option.splits dest!: map_of_SomeD)

lemma visit_neighbors_spec:
  "visit_neighbors nbrs depth (visited, queue) = (visited', queue') \<Longrightarrow>
     \<exists>new. queue' = queue @ map (\<lambda>n. (n, depth + 1)) new \<and> distinct new \<and>
           set new = set nbrs - visited \<and> visited' = visited \<union> set nbrs"
proof (induction nbrs arbitrary: visited queue)
  case Nil
  then show ?case by auto
next
  case (Cons n nbrs)
  show ?case
  proof (cases "n \<in> visited")
    case True
    with Cons.prems have "visit_neighbors nbrs depth (visited, queue) = (visited', queue')" by simp
    from Cons.IH [OF this] True show ?thesis by auto
  next
    case False
    with Cons.prems have "visit_neighbors nbrs depth (insert n visited, queue @ [(n, depth + 1)]) = (visited', queue')"
      by simp
    from Cons.IH [OF this] obtain new where
      n: "queue' = (queue @ [(n, depth + 1)]) @ map (\<lambda>n. (n, depth + 1)) new" "distinct new"
         "set new = set nbrs - insert n visited" "visited' = insert n visited \<union> set nbrs"
      by blast
    have "queue' = queue @ map (\<lambda>n. (n, depth + 1)) (n # new) \<and> distinct (n # new) \<and>
           set (n # new) = set (n # nbrs) - visited \<and> visited' = visited \<union> set (n # nbrs)"
      using n False by auto
    then show ?thesis by blast
  qed
qed

function bfs :: "graph \<Rightarrow> layers \<Rightarrow> node set \<Rightarrow> (node \<times> int) list \<Rightarrow> error + (layers \<times> node set)" where
  "bfs UG layers visited [] = Inr (layers, visited)"
| "bfs UG layers visited ((n, depth) # queue) =
     (case neighbors UG n of
        Inl e \<Rightarrow> Inl e
      | Inr nbrs \<Rightarrow>
          (case visit_neighbors nbrs depth (visited, queue) of
             (visited', queue') \<Rightarrow> bfs UG (layers_append depth n layers) visited' queue'))"
  by pat_completeness auto
termination
proof (relation "measures [\<lambda>(UG, layers, visited, queue). card (mentioned UG - visited),
                           \<lambda>(UG, layers, visited, queue). length queue]")
  show "wf (measures [\<lambda>(UG, layers, visited, queue). card (mentioned UG - visited),
                           \<lambda>(UG, layers, visited, queue). length queue])"
    by simp
next
  fix UG :: graph and layers :: layers and visited :: "node set" and n :: node and depth :: int
    and queue :: "(node \<times> int) list" and nbrs visited' queue'
  assume nb: "neighbors UG n = Inr nbrs"
    and x: "(visited', queue') = visit_neighbors nbrs depth (visited, queue)"
  then have "visit_neighbors nbrs depth (visited, queue) = (visited', queue')" by simp
  from visit_neighbors_spec [OF this] obtain new where
    new: "queue' = queue @ map (\<lambda>n. (n, depth + 1)) new" "set new = set nbrs - visited"
      "visited' = visited \<union> set nbrs"
    by blast
  show "((UG, layers_append depth n layers, visited', queue'), (UG, layers, visited, (n, depth) # queue))
       \<in> measures [\<lambda>(UG, layers, visited, queue). card (mentioned UG - visited),
                           \<lambda>(UG, layers, visited, queue). length queue]"
  proof (cases "set nbrs \<subseteq> visited")
    case True
    then have "set new = {}" using new(2) by auto
    then have "new = []" by (cases new) simp_all
    moreover have "visited' = visited" using True new(3) by auto
    ultimately show ?thesis using new(1) by simp
  next
    case False
    then obtain m where m: "m \<in> set nbrs" "m \<notin> visited" by blast
    have "m \<in> mentioned UG" using neighbors_mentioned [OF nb] m by auto
    then have "mentioned UG - visited' \<subset> mentioned UG - visited"
      using m new(3) by auto
    then have "card (mentioned UG - visited') < card (mentioned UG - visited)"
      by (intro psubset_card_mono) (simp_all add: finite_mentioned)
    then show ?thesis by simp
  qed
qed

text \<open>The second loop: every node of \<^verbatim>\<open>G.nodes\<close> not visited gets \<^verbatim>\<open>max_depth += 1\<close>.\<close>

fun place_unvisited :: "node list \<Rightarrow> node set \<Rightarrow> int \<Rightarrow> layers \<Rightarrow> layers" where
  "place_unvisited [] visited max_depth layers = layers"
| "place_unvisited (n # rest) visited max_depth layers =
     (if n \<notin> visited
      then place_unvisited rest visited (max_depth + 1) (layers_append (max_depth + 1) n layers)
      else place_unvisited rest visited max_depth layers)"

text \<open>
  \<^verbatim>\<open>sort(key=degree, reverse=True)\<close> is stable: descending degree, equal degrees in their
  previous order.  That is the stable ascending sort on the negated degree.
\<close>

definition sort_layers :: "graph \<Rightarrow> layers \<Rightarrow> layers" where
  "sort_layers UG layers = map (\<lambda>(depth, ns). (depth, sort_key (\<lambda>n. - int (degree UG n)) ns)) layers"

text \<open>
  A position is a pair of coordinates; \<open>x\<close> is a float in the source and is modelled by a
  real number, which is exact as long as the width of a row stays below \<open>2 ^ 53\<close>.
\<close>

type_synonym point = "real \<times> real"

definition vertical_gap :: int where "vertical_gap = 170"

definition horizontal_gap :: int where "horizontal_gap = 150"

definition place_row :: "int \<Rightarrow> node list \<Rightarrow> (node \<rightharpoonup> point) \<Rightarrow> (node \<rightharpoonup> point)" where
  "place_row depth ns pos =
     (let count = int (length ns);
          total_width = (count - 1) * horizontal_gap;
          start_x = - real_of_int total_width / 2
      in fold (\<lambda>(i, n) pos. pos(n \<mapsto> (start_x + real i * real_of_int horizontal_gap,
                                       real_of_int (depth * vertical_gap))))
           (enumerate 0 ns) pos)"

text \<open>The layers before they are sorted: both loops of \<^verbatim>\<open>compute_tree_layout\<close>.\<close>

definition tree_layers :: "digraph \<Rightarrow> node \<Rightarrow> error + layers" where
  "tree_layers G rid =
     (let UG = to_undirected G
      in case bfs UG [] {rid} [(rid, 0)] of
           Inl e \<Rightarrow> Inl e
         | Inr (layers, visited) \<Rightarrow>
             (let max_depth = (if layers \<noteq> [] then Max (set (keys layers)) else 0)
              in Inr (place_unvisited (nodes G) visited max_depth layers)))"

text \<open>
  The root may be \<^verbatim>\<open>None\<close>.  \<^verbatim>\<open>None\<close> is never a node of a networkx graph, so the first
  \<^verbatim>\<open>UG.neighbors(None)\<close> raises.
\<close>

definition compute_tree_layout :: "digraph \<Rightarrow> node option \<Rightarrow> error + (node \<rightharpoonup> point)" where
  "compute_tree_layout G rid =
     (case rid of
        None \<Rightarrow> Inl NetworkXError
      | Some r \<Rightarrow>
          (case tree_layers G r of
             Inl e \<Rightarrow> Inl e
           | Inr layers \<Rightarrow>
               Inr (fold (\<lambda>(depth, ns). place_row depth ns)
                      (sort_layers (to_undirected G) layers) Map.empty)))"

subsection \<open>Notions used to state the layout's properties\<close>

text \<open>
  The neighbours of a node in the undirected graph, the invariant that the two dictionaries
  of an \<^verbatim>\<open>nx.Graph\<close> have the same keys, the edges of the directed graph read in both
  directions, and the nodes of all layers in order.
\<close>

definition nbr_set :: "graph \<Rightarrow> node \<Rightarrow> node set" where
  "nbr_set UG x = set (keys (get_or_empty (ug_adj UG) x))"

definition ug_inv :: "graph \<Rightarrow> bool" where
  "ug_inv UG \<longleftrightarrow> set (keys (ug_node UG)) = set (keys (ug_adj UG))"

definition und_pairs :: "digraph \<Rightarrow> (node \<times> node) list" where
  "und_pairs G = concat (map (\<lambda>(u, v, d). [(u, v), (v, u)]) (edges G))"

definition layer_nodes :: "layers \<Rightarrow> node list" where
  "layer_nodes L = concat (map snd L)"

text \<open>A layer as \<^verbatim>\<open>compute_tree_layout\<close> sorts it.\<close>

definition sorted_layer :: "digraph \<Rightarrow> node list \<Rightarrow> node list" where
  "sorted_layer G ns = sort_key (\<lambda>n. - int (degree (to_undirected G) n)) ns"

subsection \<open>Force layout\<close>

text \<open>
  \<^verbatim>\<open>compute_force_layout\<close> scales what \<^verbatim>\<open>nx.spring_layout\<close> returns; \<open>spring\<close> is that call.
\<close>

definition compute_force_layout :: "(digraph \<Rightarrow> (node \<rightharpoonup> point)) \<Rightarrow> digraph \<Rightarrow> (node \<rightharpoonup> point)" where
  "compute_force_layout spring G =
     (let raw_pos = spring G; scale = 320
      in (\<lambda>n. case raw_pos n of None \<Rightarrow> None | Some (x, y) \<Rightarrow> Some (x * scale, y * scale)))"

subsection \<open>Scene items\<close>

text \<open>Qt's rectangle: the top left corner, the width and the height.\<close>

record QRectF =
  rect_x :: real
  rect_y :: real
  rect_w :: real
  rect_h :: real

definition isNull :: "QRectF \<Rightarrow> bool" where
  "isNull r \<longleftrightarrow> rect_w r = 0 \<and> rect_h r = 0"

definition united :: "QRectF \<Rightarrow> QRectF \<Rightarrow> QRectF" where
  "united a b =
     (if isNull a then b
      else if isNull b then a
      else let l = min (min (rect_x a) (rect_x a + rect_w a)) (min (rect_x b) (rect_x b + rect_w b));
               r = max (max (rect_x a) (rect_x a + rect_w a)) (max (rect_x b) (rect_x b + rect_w b));
               t = min (min (rect_y a) (rect_y a + rect_h a)) (min (rect_y b) (rect_y b + rect_h b));
               bt = max (max (rect_y a) (rect_y a + rect_h a)) (max (rect_y b) (rect_y b + rect_h b))
           in \<lparr>rect_x = l, rect_y = t, rect_w = r - l, rect_h = bt - t\<rparr>)"

definition adjusted :: "QRectF \<Rightarrow> real \<Rightarrow> real \<Rightarrow> real \<Rightarrow> real \<Rightarrow> QRectF" where
  "adjusted r dx1 dy1 dx2 dy2 =
     \<lparr>rect_x = rect_x r + dx1, rect_y = rect_y r + dy1,
      rect_w = rect_w r + dx2 - dx1, rect_h = rect_h r + dy2 - dy1\<rparr>"

text \<open>
  \<^verbatim>\<open>OutlineTextItem.boundingRect\<close>, in the coordinates of the item: the rectangle that the
  font metrics give for the text, widened by 4 on every side.  \<open>fm\<close> is
  \<^verbatim>\<open>QFontMetricsF(font).boundingRect\<close>.
\<close>

definition OutlineTextItem_rect :: "(string \<Rightarrow> QRectF) \<Rightarrow> string \<Rightarrow> QRectF" where
  "OutlineTextItem_rect fm text = adjusted (fm text) (- 4) (- 4) 4 4"

record node_item =
  node_id :: node
  center :: point
  radius :: real
  fill_color :: string
  item_label :: string
  opacity :: real

record curve =
  path_start :: point
  path_ctrl :: point
  path_end :: point

record edge_item =
  src_id :: node
  dst_id :: node
  label_text :: string
  label_rect :: QRectF
  path :: curve
  label_pos :: point
  edge_opacity :: real
  label_opacity :: real

definition manhattanLength :: "point \<Rightarrow> real" where
  "manhattanLength p = \<bar>fst p\<bar> + \<bar>snd p\<bar>"

text \<open>
  \<^verbatim>\<open>CurvedEdgeItem.update_path\<close>, from the centres \<open>p1\<close>, \<open>p2\<close> of the two node items and the
  bounding rectangle \<open>lb\<close> of the label item: the path (\<^verbatim>\<open>moveTo(p1)\<close>,
  \<^verbatim>\<open>quadTo(ctrl, p2)\<close>) and the position given to the label item by \<^verbatim>\<open>setPos\<close>.
  Coordinates are doubles in the source and real numbers here: what is proved of them holds
  of the code up to the rounding of floating-point arithmetic.
\<close>

definition update_path :: "point \<Rightarrow> point \<Rightarrow> QRectF \<Rightarrow> curve \<times> point" where
  "update_path p1 p2 lb =
     (let mid = ((fst p1 + fst p2) / 2, (snd p1 + snd p2) / 2);
          vec = (fst p2 - fst p1, snd p2 - snd p1);
          perp = (- snd vec, fst vec);
          perp = (if manhattanLength perp > 0
                  then (fst perp / manhattanLength perp, snd perp / manhattanLength perp)
                  else perp);
          curvature = 40;
          ctrl = (fst mid + fst perp * curvature, snd mid + snd perp * curvature);
          t = 1 / 2;
          mid_x = (1 - t)\<^sup>2 * fst p1 + 2 * (1 - t) * t * fst ctrl + t\<^sup>2 * fst p2;
          mid_y = (1 - t)\<^sup>2 * snd p1 + 2 * (1 - t) * t * snd ctrl + t\<^sup>2 * snd p2
      in (\<lparr>path_start = p1, path_ctrl = ctrl, path_end = p2\<rparr>,
          (mid_x - rect_w lb / 2, mid_y - rect_h lb / 2)))"




subsection \<open>The viewer\<close>

datatype scene_item = NodeShape node_item | EdgeShape edge_item | LabelShape edge_item

text \<open>
  What networkx and Qt contribute.  \<^verbatim>\<open>nx.spring_layout\<close> is called without a seed and
  draws from the random generator, so two calls on the same graph differ:
  \<open>spring_layout tk k G\<close> is what the \<open>k\<close>-th call made by a viewer returns.
  \<open>fm_boundingRect\<close> is the bounding rectangle the metrics of the edge font give for a text,
  \<open>sceneBoundingRect\<close> the rectangle of an item in the scene.
\<close>

record toolkit =
  spring_layout :: "nat \<Rightarrow> digraph \<Rightarrow> (node \<rightharpoonup> point)"
  fm_boundingRect :: "string \<Rightarrow> QRectF"
  sceneBoundingRect :: "scene_item \<Rightarrow> QRectF"

text \<open>
  The state of a \<^verbatim>\<open>GraphViewer\<close>.  \<open>fitted\<close> is the scene rectangle last given to
  \<^verbatim>\<open>fitInView\<close>, which determines the transformation of the view; \<open>layout_calls\<close>
  counts the calls of \<^verbatim>\<open>nx.spring_layout\<close> made so far.
\<close>

record viewer =
  graph_of :: digraph
  root_id :: "node option"
  current_layout :: string
  positions :: "node \<rightharpoonup> point"
  node_items :: "(node \<times> node_item) list"
  edge_items :: "edge_item list"
  fitted :: "QRectF option"
  layout_calls :: nat

definition item_center :: "viewer \<Rightarrow> node \<Rightarrow> point" where
  "item_center v n = (case map_of (node_items v) n of None \<Rightarrow> (0, 0) | Some it \<Rightarrow> center it)"

definition update_edge :: "viewer \<Rightarrow> edge_item \<Rightarrow> edge_item" where
  "update_edge v e =
     (case update_path (item_center v (src_id e)) (item_center v (dst_id e)) (label_rect e) of
        (p, lp) \<Rightarrow> e\<lparr>path := p, label_pos := lp\<rparr>)"

definition update_all_edges :: "viewer \<Rightarrow> viewer" where
  "update_all_edges v = v\<lparr>edge_items := map (update_edge v) (edge_items v)\<rparr>"

text \<open>\<^verbatim>\<open>G.degree(node)\<close> of the directed graph: in-degree plus out-degree.\<close>

definition di_degree :: "digraph \<Rightarrow> node \<Rightarrow> nat" where
  "di_degree G n = length (get_or_empty (g_succ G) n) + length (get_or_empty (g_pred G) n)"

definition color_map :: "string \<Rightarrow> string" where
  "color_map c =
     (if c = ''Character'' then ''#66AAFF''
      else if c = ''Location'' then ''#88CC66''
      else if c = ''Item'' then ''#FFCC66''
      else if c = ''Event'' then ''#CC66FF''
      else if c = ''default'' then ''#AAAAAA''
      else ''#AAAAAA'')"

definition make_node_item :: "viewer \<Rightarrow> node \<times> node_attrs \<Rightarrow> node_item" where
  "make_node_item v nd =
     (let n = fst nd; data = snd nd;
          base_radius = 22; mult = 4;
          degree = di_degree (graph_of v) n;
          radius = base_radius + mult * real (min degree 8);
          label = (case label data of None \<Rightarrow> py_str_int n | Some l \<Rightarrow> l);
          category = (case node_category data of None \<Rightarrow> ''default'' | Some c \<Rightarrow> c);
          center = (case positions v n of None \<Rightarrow> (0, 0) | Some p \<Rightarrow> p)
      in \<lparr>node_id = n, center = center, radius = radius, fill_color = color_map category,
          item_label = label, opacity = 1\<rparr>)"

text \<open>
  The edge loop of \<^verbatim>\<open>draw_graph\<close>: one item for the first edge of every unordered pair of
  nodes, provided both nodes have an item.
\<close>

fun draw_edges :: "toolkit \<Rightarrow> viewer \<Rightarrow> (node \<times> node \<times> string) list \<Rightarrow> (node \<times> node) set \<Rightarrow> edge_item list" where
  "draw_edges tk v [] seen_pairs = []"
| "draw_edges tk v ((src, dst, lbl) # rest) seen_pairs =
     (let key = (min src dst, max src dst)
      in if key \<in> seen_pairs then draw_edges tk v rest seen_pairs
         else if src \<notin> set (keys (node_items v)) \<or> dst \<notin> set (keys (node_items v))
              then draw_edges tk v rest (insert key seen_pairs)
              else update_edge v
                     \<lparr>src_id = src, dst_id = dst, label_text = lbl,
                      label_rect = OutlineTextItem_rect (fm_boundingRect tk) lbl,
                      path = \<lparr>path_start = (0, 0), path_ctrl = (0, 0), path_end = (0, 0)\<rparr>,
                      label_pos = (0, 0), edge_opacity = 1, label_opacity = 1\<rparr>
                   # draw_edges tk v rest (insert key seen_pairs))"

definition draw_graph :: "toolkit \<Rightarrow> viewer \<Rightarrow> viewer" where
  "draw_graph tk v =
     (let v1 = v\<lparr>node_items := [], edge_items := []\<rparr>;
          v2 = v1\<lparr>node_items := fold (\<lambda>nd items. AList.update (fst nd) (make_node_item v1 nd) items)
                                  (g_node (graph_of v1)) []\<rparr>
      in v2\<lparr>edge_items := draw_edges tk v2 (edges (graph_of v2)) {}\<rparr>)"

definition scene_items :: "viewer \<Rightarrow> scene_item list" where
  "scene_items v =
     map (\<lambda>(n, it). NodeShape it) (node_items v) @
     concat (map (\<lambda>e. [EdgeShape e, LabelShape e]) (edge_items v))"

text \<open>\<^verbatim>\<open>scene.itemsBoundingRect()\<close>: the union of the items' rectangles, null without items.\<close>

definition itemsBoundingRect :: "toolkit \<Rightarrow> viewer \<Rightarrow> QRectF" where
  "itemsBoundingRect tk v =
     fold (\<lambda>it r. united r (sceneBoundingRect tk it)) (scene_items v)
       \<lparr>rect_x = 0, rect_y = 0, rect_w = 0, rect_h = 0\<rparr>"

definition fit_to_view :: "toolkit \<Rightarrow> viewer \<Rightarrow> viewer" where
  "fit_to_view tk v =
     (let rect = itemsBoundingRect tk v
      in if isNull rect then v else v\<lparr>fitted := Some rect\<rparr>)"

definition apply_positions :: "viewer \<Rightarrow> viewer" where
  "apply_positions v =
     update_all_edges
       (v\<lparr>node_items := map (\<lambda>(n, it). (n, case positions v n of None \<Rightarrow> it
                                                     | Some p \<Rightarrow> it\<lparr>center := p\<rparr>))
                              (node_items v)\<rparr>)"

text \<open>\<^verbatim>\<open>self.root_id is not None and self.root_id in self.G.nodes\<close>\<close>

definition valid_root :: "digraph \<Rightarrow> node option \<Rightarrow> bool" where
  "valid_root G rid \<longleftrightarrow> (case rid of None \<Rightarrow> False | Some r \<Rightarrow> has_node G r)"

text \<open>The constructor, from the initial layout on.\<close>

definition GraphViewer :: "toolkit \<Rightarrow> digraph \<Rightarrow> node option \<Rightarrow> error + viewer" where
  "GraphViewer tk G rid =
     (let v = \<lparr>graph_of = G, root_id = rid, current_layout = [], positions = Map.empty,
                node_items = [], edge_items = [], fitted = None, layout_calls = 0\<rparr>
      in if valid_root G rid
         then (case compute_tree_layout G rid of
                 Inl e \<Rightarrow> Inl e
               | Inr pos \<Rightarrow>
                   Inr (fit_to_view tk (draw_graph tk (v\<lparr>current_layout := ''tree'', positions := pos\<rparr>))))
         else Inr (fit_to_view tk (draw_graph tk
                (v\<lparr>current_layout := ''force'',
                   positions := compute_force_layout (spring_layout tk (layout_calls v)) G,
                   layout_calls := layout_calls v + 1\<rparr>))))"

definition apply_tree_layout :: "toolkit \<Rightarrow> viewer \<Rightarrow> error + viewer" where
  "apply_tree_layout tk v =
     (if valid_root (graph_of v) (root_id v)
      then (case compute_tree_layout (graph_of v) (root_id v) of
              Inl e \<Rightarrow> Inl e
            | Inr pos \<Rightarrow>
                Inr (fit_to_view tk (apply_positions (v\<lparr>current_layout := ''tree'', positions := pos\<rparr>))))
      else Inr v)"

definition apply_force_layout :: "toolkit \<Rightarrow> viewer \<Rightarrow> viewer" where
  "apply_force_layout tk v =
     fit_to_view tk (apply_positions
       (v\<lparr>current_layout := ''force'',
          positions := compute_force_layout (spring_layout tk (layout_calls v)) (graph_of v),
          layout_calls := layout_calls v + 1\<rparr>))"

text \<open>
  The two layout buttons are connected to \<^verbatim>\<open>apply_tree_layout\<close> and
  \<^verbatim>\<open>apply_force_layout\<close>; \<open>clicks\<close> is a sequence of presses, stopped by an exception.
\<close>

datatype button = TreeLayoutButton | ForceLayoutButton

fun click :: "toolkit \<Rightarrow> button \<Rightarrow> viewer \<Rightarrow> error + viewer" where
  "click tk TreeLayoutButton v = apply_tree_layout tk v"
| "click tk ForceLayoutButton v = Inr (apply_force_layout tk v)"

fun clicks :: "toolkit \<Rightarrow> button list \<Rightarrow> viewer \<Rightarrow> error + viewer" where
  "clicks tk [] v = Inr v"
| "clicks tk (b # bs) v = (case click tk b v of Inl e \<Rightarrow> Inl e | Inr v' \<Rightarrow> clicks tk bs v')"

text \<open>\<^verbatim>\<open>highlight_neighbors\<close>; \<^verbatim>\<open>G.successors\<close> raises for a node that is not in the graph.\<close>

definition highlight_neighbors :: "node \<Rightarrow> viewer \<Rightarrow> error + viewer" where
  "highlight_neighbors n v =
     (case successors (graph_of v) n of
        Inl e \<Rightarrow> Inl e
      | Inr succ \<Rightarrow>
          (case predecessors (graph_of v) n of
             Inl e \<Rightarrow> Inl e
           | Inr pred \<Rightarrow>
               (let neighbors = insert n (set succ \<union> set pred)
                in Inr (v\<lparr>node_items :=
                            map (\<lambda>(m, it). (m, it\<lparr>opacity := (if m \<in> neighbors then 1 else 0.25)\<rparr>))
                              (node_items v),
                          edge_items :=
                            map (\<lambda>e. let highlight = (src_id e \<in> neighbors \<and> dst_id e \<in> neighbors)
                                      in e\<lparr>edge_opacity := (if highlight then 1 else 0.2),
                                           label_opacity := (if highlight then 1 else 0.2)\<rparr>)
                              (edge_items v)\<rparr>))))"

text \<open>
  The file system seen by \<^verbatim>\<open>export_png\<close>: the images stored under each path and the
  number of save dialogs shown.  \<open>chosen\<close> is what the user answers in the dialog, the
  empty string when the dialog is cancelled.
\<close>

record image =
  img_width :: int
  img_height :: int
  img_content :: "scene_item list"

record world =
  files :: "string \<rightharpoonup> image"
  dialogs_shown :: nat

text \<open>Python's \<^verbatim>\<open>int\<close> of a float truncates towards zero.\<close>

definition py_int :: "real \<Rightarrow> int" where
  "py_int r = (if r \<ge> 0 then \<lfloor>r\<rfloor> else \<lceil>r\<rceil>)"

definition export_png :: "toolkit \<Rightarrow> string \<Rightarrow> viewer \<Rightarrow> world \<Rightarrow> world" where
  "export_png tk chosen v w =
     (let rect = itemsBoundingRect tk v
      in if isNull rect then w
         else let w1 = w\<lparr>dialogs_shown := dialogs_shown w + 1\<rparr>;
                  file_name = chosen
              in if file_name = [] then w1
                 else w1\<lparr>files := (files w1)(file_name \<mapsto>
                        \<lparr>img_width = py_int (rect_w rect) * 2, img_height = py_int (rect_h rect) * 2,
                         img_content = scene_items v\<rparr>)\<rparr>)"

section \<open>Concrete inputs used in the examples\<close>

definition entry_ex :: "int \<Rightarrow> string option \<Rightarrow> string option \<Rightarrow> entry_row" where
  "entry_ex i t c =
     \<lparr>entry_id = i, title = t, description = None, category = c, tags = None, synonyms = None\<rparr>"

definition rel_ex :: "int \<Rightarrow> int \<Rightarrow> int \<Rightarrow> string option \<Rightarrow> rel_row" where
  "rel_ex i a b t = \<lparr>rel_id = i, entry_a = a, entry_b = b, rel_type = t\<rparr>"

definition entries_ex :: "entry_row list" where
  "entries_ex = [entry_ex 1 (Some ''Ann'') (Some ''Character''), entry_ex 2 None (Some [])]"

definition node_item_ex :: "node \<Rightarrow> node_item" where
  "node_item_ex n = \<lparr>node_id = n, center = (0, 0), radius = 22, fill_color = ''#AAAAAA'',
                     item_label = py_str_int n, opacity = 1\<rparr>"

definition edge_item_ex :: "node \<Rightarrow> node \<Rightarrow> edge_item" where
  "edge_item_ex a b = \<lparr>src_id = a, dst_id = b, label_text = ''relationship'',
                       label_rect = \<lparr>rect_x = - 4, rect_y = - 16, rect_w = 70, rect_h = 22\<rparr>,
                       path = \<lparr>path_start = (0, 0), path_ctrl = (0, 0), path_end = (0, 0)\<rparr>,
                       label_pos = (0, 0), edge_opacity = 1, label_opacity = 1\<rparr>"

definition graph_ex :: digraph where
  "graph_ex =
     \<lparr>g_node = [(1, no_attrs), (2, no_attrs), (3, no_attrs), (4, no_attrs)],
      g_succ = [(1, [(2, ''Ally'')]), (2, [(4, ''Mentor'')]), (3, [(1, ''Enemy'')]), (4, [])],
      g_pred = [(1, [(3, ''Enemy'')]), (2, [(1, ''Ally'')]), (3, []), (4, [(2, ''Mentor'')])]\<rparr>"

definition viewer_ex :: viewer where
  "viewer_ex = \<lparr>graph_of = graph_ex, root_id = Some 1, current_layout = ''tree'',
                 positions = Map.empty,
                 node_items = [(1, node_item_ex 1), (2, node_item_ex 2), (3, node_item_ex 3),
                               (4, node_item_ex 4)],
                 edge_items = [edge_item_ex 1 2, edge_item_ex 3 1, edge_item_ex 2 4],
                 fitted = None, layout_calls = 0\<rparr>"

definition toolkit_ex :: toolkit where
  "toolkit_ex =
     \<lparr>spring_layout = (\<lambda>k G. map_of (map (\<lambda>n. (n, (real k + 1, - 1 / 2))) (nodes G))),
      fm_boundingRect = (\<lambda>s. if s = [] then \<lparr>rect_x = 0, rect_y = 0, rect_w = 0, rect_h = 0\<rparr>
                              else \<lparr>rect_x = 0, rect_y = - 12, rect_w = real (length s) * 7, rect_h = 14\<rparr>),
      sceneBoundingRect = (\<lambda>it. \<lparr>rect_x = 0, rect_y = 0, rect_w = 44, rect_h = 44\<rparr>)\<rparr>"

definition graph_tree_ex :: digraph where
  "graph_tree_ex =
     \<lparr>g_node = [(1, no_attrs), (2, no_attrs), (3, no_attrs), (4, no_attrs)],
      g_succ = [(1, [(2, ''Ally'')]), (2, []), (3, []), (4, [])],
      g_pred = [(1, []), (2, [(1, ''Ally'')]), (3, []), (4, [])]\<rparr>"

definition graph_rows_ex :: digraph where
  "graph_rows_ex =
     \<lparr>g_node = [(1, no_attrs), (2, no_attrs), (3, no_attrs), (4, no_attrs)],
      g_succ = [(1, [(2, ''Ally''), (3, ''Ally'')]), (2, []), (3, [(4, ''Enemy'')]), (4, [])],
      g_pred = [(1, []), (2, [(1, ''Ally'')]), (3, [(1, ''Ally'')]), (4, [(3, ''Enemy'')])]\<rparr>"

section \<open>Properties of the graph builder\<close>

subsection \<open>Ordered dictionaries\<close>

lemma keys_Nil [simp]: "keys [] = []"
  by (simp add: keys_def)

lemma keys_Cons [simp]: "keys (p # d) = fst p # keys d"
  by (simp add: keys_def)

lemma keys_append [simp]: "keys (d @ d') = keys d @ keys d'"
  by (simp add: keys_def)

lemma update_absent: "k \<notin> set (keys al) \<Longrightarrow> AList.update k v al = al @ [(k, v)]"
  by (induction al) (auto simp: keys_def)

lemma keys_update: "keys (AList.update k v al) = (if k \<in> set (keys al) then keys al else keys al @ [k])"
  by (simp add: keys_def update_keys)

lemma set_update_subset: "set (AList.update k v al) \<subseteq> insert (k, v) (set al)"
  by (induction al) auto

lemma get_or_empty_cases:
  "get_or_empty d k = [] \<or> (k, get_or_empty d k) \<in> set d"
  by (auto simp: get_or_empty_def split: option.splits dest: map_of_SomeD)

subsection \<open>Well-formedness is preserved\<close>

lemma wf_adjacency_add_new:
  "wf_adjacency ns adj \<Longrightarrow> n \<notin> set ns \<Longrightarrow> wf_adjacency (ns @ [n]) (AList.update n [] adj)"
  unfolding wf_adjacency_def by (simp add: update_absent) blast

lemma wf_adjacency_add_edge:
  assumes "wf_adjacency ns adj" "u \<in> set ns" "v \<in> set ns"
  shows "wf_adjacency ns (AList.update u (AList.update v l (get_or_empty adj u)) adj)"
proof -
  let ?nbrs = "get_or_empty adj u"
  have k: "keys adj = ns" using assms by (simp add: wf_adjacency_def)
  have old: "distinct (keys ?nbrs) \<and> set (keys ?nbrs) \<subseteq> set ns"
    using get_or_empty_cases [of adj u] assms(1) unfolding wf_adjacency_def by auto
  have new: "distinct (keys (AList.update v l ?nbrs)) \<and> set (keys (AList.update v l ?nbrs)) \<subseteq> set ns"
    using old assms(3) by (auto simp: keys_update)
  have "keys (AList.update u (AList.update v l ?nbrs) adj) = ns"
    using k assms(2) by (simp add: keys_update)
  moreover have "\<forall>(w, nbrs) \<in> set (AList.update u (AList.update v l ?nbrs) adj).
      distinct (keys nbrs) \<and> set (keys nbrs) \<subseteq> set ns"
    using set_update_subset [of u "AList.update v l ?nbrs" adj] new assms(1)
    by (fastforce simp: wf_adjacency_def)
  ultimately show ?thesis by (simp add: wf_adjacency_def)
qed

lemma wf_adjacency_keys: "wf_adjacency ns adj \<Longrightarrow> keys adj = ns"
  by (simp add: wf_adjacency_def)

lemma wf_digraph_empty: "wf_digraph DiGraph"
  by (simp add: wf_digraph_def DiGraph_def wf_adjacency_def nodes_def keys_def)

lemma ensure_node_present: "wf_digraph G \<Longrightarrow> has_node G n \<Longrightarrow> ensure_node n G = G"
  by (simp add: ensure_node_def wf_digraph_def has_node_def nodes_def wf_adjacency_def)

lemma nodes_add_node:
  "wf_digraph G \<Longrightarrow> nodes (add_node n a G) = (if has_node G n then nodes G else nodes G @ [n])"
  by (auto simp: add_node_def wf_digraph_def has_node_def nodes_def wf_adjacency_def keys_update)

lemma wf_digraph_add_node: "wf_digraph G \<Longrightarrow> wf_digraph (add_node n a G)"
proof (cases "has_node G n")
  case True
  assume "wf_digraph G"
  with True show ?thesis
    by (auto simp: add_node_def wf_digraph_def has_node_def nodes_def wf_adjacency_def keys_update)
next
  case False
  assume wf: "wf_digraph G"
  have n: "n \<notin> set (nodes G)" using False by (simp add: has_node_def nodes_def)
  have keq: "keys (g_succ G) = nodes G" using wf by (simp add: wf_digraph_def wf_adjacency_def)
  have "nodes (add_node n a G) = nodes G @ [n]"
    using wf False by (simp add: nodes_add_node)
  moreover have "g_succ (add_node n a G) = AList.update n [] (g_succ G)"
    "g_pred (add_node n a G) = AList.update n [] (g_pred G)"
    using n keq by (simp_all add: add_node_def)
  ultimately show ?thesis
    using wf n by (simp add: wf_digraph_def wf_adjacency_add_new)
qed

lemma add_edge_present:
  assumes "wf_digraph G" "has_node G u" "has_node G v"
  shows "add_edge u v l G =
     G\<lparr>g_succ := AList.update u (AList.update v l (get_or_empty (g_succ G) u)) (g_succ G),
       g_pred := AList.update v (AList.update u l (get_or_empty (g_pred G) v)) (g_pred G)\<rparr>"
  using assms by (simp add: add_edge_def ensure_node_present Let_def)

lemma wf_digraph_add_edge:
  assumes "wf_digraph G" "has_node G u" "has_node G v"
  shows "wf_digraph (add_edge u v l G)" "nodes (add_edge u v l G) = nodes G"
  using assms
  by (simp_all add: add_edge_present wf_digraph_def nodes_def has_node_def wf_adjacency_add_edge)

lemma wf_digraph_add_entry_node: "wf_digraph G \<Longrightarrow> wf_digraph (add_entry_node e G)"
  by (simp add: add_entry_node_def Let_def wf_digraph_add_node)

lemma wf_digraph_add_relationship_edge:
  "wf_digraph G \<Longrightarrow> wf_digraph (add_relationship_edge r G)"
  by (simp add: add_relationship_edge_def Let_def wf_digraph_add_edge)

lemma nodes_add_relationship_edge:
  "wf_digraph G \<Longrightarrow> nodes (add_relationship_edge r G) = nodes G"
  by (simp add: add_relationship_edge_def Let_def wf_digraph_add_edge)

lemma g_node_add_relationship_edge:
  "wf_digraph G \<Longrightarrow> g_node (add_relationship_edge r G) = g_node G"
  by (simp add: add_relationship_edge_def Let_def add_edge_present)

lemma wf_fold_entries: "wf_digraph G \<Longrightarrow> wf_digraph (fold add_entry_node es G)"
  by (induction es arbitrary: G) (simp_all add: wf_digraph_add_entry_node)

lemma wf_fold_relationships:
  "wf_digraph G \<Longrightarrow> wf_digraph (fold add_relationship_edge rs G) \<and>
     g_node (fold add_relationship_edge rs G) = g_node G"
  by (induction rs arbitrary: G)
     (simp_all add: wf_digraph_add_relationship_edge g_node_add_relationship_edge)

lemma wf_digraph_build_graph: "wf_digraph (build_graph es rs)"
  by (simp add: build_graph_def wf_fold_entries wf_fold_relationships wf_digraph_empty)

lemma set_nodes_fold_entries:
  "wf_digraph G \<Longrightarrow> set (nodes (fold add_entry_node es G)) = set (nodes G) \<union> entry_id ` set es"
proof (induction es arbitrary: G)
  case Nil
  then show ?case by simp
next
  case (Cons e es)
  have "set (nodes (add_entry_node e G)) = insert (entry_id e) (set (nodes G))"
    using Cons.prems by (auto simp: add_entry_node_def Let_def nodes_add_node has_node_def)
  with Cons.IH [OF wf_digraph_add_entry_node [OF Cons.prems]] show ?case by simp
qed

lemma set_nodes_build_graph: "set (nodes (build_graph es rs)) = entry_id ` set es"
  using set_nodes_fold_entries [OF wf_digraph_empty, of es]
    wf_fold_relationships [OF wf_fold_entries [OF wf_digraph_empty], of rs es]
  by (simp add: build_graph_def nodes_def DiGraph_def keys_def)

subsection \<open>Edges and labels of the built graph\<close>

lemma in_edges_iff:
  "(u, v, d) \<in> set (edges G) \<longleftrightarrow> (\<exists>nbrs. (u, nbrs) \<in> set (g_succ G) \<and> (v, d) \<in> set nbrs)"
  by (auto simp: edges_def)

lemma wf_edge_label:
  assumes "wf_digraph G"
  shows "(u, v, d) \<in> set (edges G) \<longleftrightarrow> edge_label G u v = Some d"
proof -
  have dk: "distinct (map fst (g_succ G))"
    using assms by (simp add: wf_digraph_def wf_adjacency_def keys_def)
  have di: "\<And>nbrs. (u, nbrs) \<in> set (g_succ G) \<Longrightarrow> distinct (map fst nbrs)"
    using assms by (auto simp: wf_digraph_def wf_adjacency_def keys_def)
  show ?thesis
  proof
    assume "(u, v, d) \<in> set (edges G)"
    then obtain nbrs where n: "(u, nbrs) \<in> set (g_succ G)" "(v, d) \<in> set nbrs"
      by (auto simp: in_edges_iff)
    then have "map_of (g_succ G) u = Some nbrs" "map_of nbrs v = Some d"
      using dk di by simp_all
    then show "edge_label G u v = Some d" by (simp add: edge_label_def)
  next
    assume "edge_label G u v = Some d"
    then obtain nbrs where "map_of (g_succ G) u = Some nbrs" "map_of nbrs v = Some d"
      by (auto simp: edge_label_def split: option.splits)
    then show "(u, v, d) \<in> set (edges G)"
      by (auto simp: in_edges_iff dest: map_of_SomeD)
  qed
qed

lemma edge_label_add_edge:
  assumes "wf_digraph G" "has_node G u" "has_node G v"
  shows "edge_label (add_edge u v l G) u' v' =
           (if u' = u \<and> v' = v then Some l else edge_label G u' v')"
  using assms
  by (auto simp: add_edge_present edge_label_def update_conv' get_or_empty_def split: option.splits)

lemma edge_label_add_relationship_edge:
  assumes "wf_digraph G"
  shows "edge_label (add_relationship_edge r G) u v =
           (if entry_a r = u \<and> entry_b r = v \<and> has_node G u \<and> has_node G v
            then Some (py_or (rel_type r) ''relationship'') else edge_label G u v)"
  using assms by (auto simp: add_relationship_edge_def Let_def edge_label_add_edge)

lemma has_node_fold_relationships:
  "wf_digraph G \<Longrightarrow> has_node (fold add_relationship_edge rs G) n = has_node G n"
  by (simp add: has_node_def nodes_def wf_fold_relationships)

lemma edge_label_fold_other:
  assumes "wf_digraph G" "\<forall>r \<in> set rs. \<not> (entry_a r = u \<and> entry_b r = v)"
  shows "edge_label (fold add_relationship_edge rs G) u v = edge_label G u v"
  using assms
proof (induction rs arbitrary: G)
  case Nil
  then show ?case by simp
next
  case (Cons r rs)
  have "edge_label (fold add_relationship_edge rs (add_relationship_edge r G)) u v =
        edge_label (add_relationship_edge r G) u v"
    using Cons by (simp add: wf_digraph_add_relationship_edge)
  also have "\<dots> = edge_label G u v"
    using Cons.prems by (auto simp: edge_label_add_relationship_edge)
  finally show ?case by simp
qed

lemma edge_label_fold_last:
  assumes "wf_digraph G" "\<forall>r' \<in> set rs2. \<not> (entry_a r' = entry_a r \<and> entry_b r' = entry_b r)"
    "has_node G (entry_a r)" "has_node G (entry_b r)"
  shows "edge_label (fold add_relationship_edge (rs1 @ r # rs2) G) (entry_a r) (entry_b r) =
           Some (py_or (rel_type r) ''relationship'')"
proof -
  let ?G1 = "fold add_relationship_edge rs1 G"
  have wf1: "wf_digraph ?G1" using assms(1) by (simp add: wf_fold_relationships)
  have wf2: "wf_digraph (add_relationship_edge r ?G1)"
    using wf1 by (rule wf_digraph_add_relationship_edge)
  have "edge_label (add_relationship_edge r ?G1) (entry_a r) (entry_b r) =
          Some (py_or (rel_type r) ''relationship'')"
    using wf1 assms(1,3,4)
    by (simp add: edge_label_add_relationship_edge has_node_fold_relationships)
  then show ?thesis
    using edge_label_fold_other [OF wf2 assms(2)] by simp
qed

lemma edge_label_fold_Some:
  assumes "wf_digraph G"
  shows "edge_label (fold add_relationship_edge rs G) u v \<noteq> None \<longleftrightarrow>
           edge_label G u v \<noteq> None \<or>
           (\<exists>r \<in> set rs. entry_a r = u \<and> entry_b r = v \<and> has_node G u \<and> has_node G v)"
  using assms
proof (induction rs arbitrary: G)
  case Nil
  then show ?case by simp
next
  case (Cons r rs)
  have wf': "wf_digraph (add_relationship_edge r G)"
    using Cons.prems by (rule wf_digraph_add_relationship_edge)
  have hn: "\<And>n. has_node (add_relationship_edge r G) n = has_node G n"
    using Cons.prems by (simp add: has_node_def nodes_add_relationship_edge)
  show ?case
    using Cons.IH [OF wf'] Cons.prems
    by (auto simp: hn edge_label_add_relationship_edge split: if_splits)
qed

lemma g_succ_fold_entries:
  "wf_digraph G \<Longrightarrow> \<forall>(u, nbrs) \<in> set (g_succ G). nbrs = [] \<Longrightarrow>
     \<forall>(u, nbrs) \<in> set (g_succ (fold add_entry_node es G)). nbrs = []"
proof (induction es arbitrary: G)
  case Nil
  then show ?case by simp
next
  case (Cons e es)
  have "\<forall>(u, nbrs) \<in> set (g_succ (add_entry_node e G)). nbrs = []"
    using Cons.prems(2) set_update_subset [of "entry_id e" "[]" "g_succ G"]
    by (auto simp: add_entry_node_def Let_def add_node_def)
  then show ?case
    using Cons.IH [OF wf_digraph_add_entry_node [OF Cons.prems(1)]] by simp
qed

lemma edge_label_fold_entries: "edge_label (fold add_entry_node es DiGraph) u v = None"
proof -
  have "\<forall>(u, nbrs) \<in> set (g_succ (fold add_entry_node es DiGraph)). nbrs = []"
    by (rule g_succ_fold_entries [OF wf_digraph_empty]) (simp add: DiGraph_def)
  then show ?thesis
    by (auto simp: edge_label_def split: option.splits dest!: map_of_SomeD)
qed

lemma node_attrs_add_entry_node:
  "wf_digraph G \<Longrightarrow> map_of (g_node (add_entry_node e G)) n =
     (if n = entry_id e
      then Some \<lparr>label = Some (py_or (title e) (''ID '' @ py_str_int (entry_id e))),
                 node_category = Some (py_or (category e) ''default'')\<rparr>
      else map_of (g_node G) n)"
  by (auto simp: add_entry_node_def Let_def add_node_def update_conv' attrs_update_def)

lemma node_attrs_fold_other:
  "wf_digraph G \<Longrightarrow> n \<notin> entry_id ` set es \<Longrightarrow>
     map_of (g_node (fold add_entry_node es G)) n = map_of (g_node G) n"
  by (induction es arbitrary: G) (simp_all add: wf_digraph_add_entry_node node_attrs_add_entry_node)

lemma node_attrs_fold_last:
  assumes "wf_digraph G" "entry_id e \<notin> entry_id ` set es2"
  shows "map_of (g_node (fold add_entry_node (es1 @ e # es2) G)) (entry_id e) =
     Some \<lparr>label = Some (py_or (title e) (''ID '' @ py_str_int (entry_id e))),
           node_category = Some (py_or (category e) ''default'')\<rparr>"
proof -
  have wf1: "wf_digraph (fold add_entry_node es1 G)" using assms(1) by (rule wf_fold_entries)
  show ?thesis
    using node_attrs_fold_other [OF wf_digraph_add_entry_node [OF wf1] assms(2)]
    by (simp add: node_attrs_add_entry_node [OF wf1])
qed


lemmas graph_eval =
  build_graph_def add_entry_node_def add_relationship_edge_def add_node_def add_edge_def
  ensure_node_def has_node_def nodes_def keys_def get_or_empty_def attrs_update_def no_attrs_def
  DiGraph_def py_or_def py_str_int_def digits_of.simps digit_char_def edges_def entry_ex_def
  rel_ex_def entries_ex_def edge_label_def

lemma py_or_unfold: "py_or v d = (if v = None \<or> v = Some [] then d else the v)"
  by (cases v) (simp_all add: py_or_def)

section \<open>Properties of the tree layout\<close>

subsection \<open>The undirected graph\<close>

lemma set_keys_update: "set (keys (AList.update k v al)) = insert k (set (keys al))"
  by (auto simp: keys_update)

lemma get_or_empty_update:
  "get_or_empty (AList.update k v al) x = (if x = k then v else get_or_empty al x)"
  by (simp add: get_or_empty_def update_conv')

lemma get_or_empty_absent: "k \<notin> set (keys al) \<Longrightarrow> get_or_empty al k = []"
  by (simp add: get_or_empty_def keys_def map_of_eq_None_iff [THEN iffD2])

lemma adj_add_edge:
  "set (keys (get_or_empty
      (AList.update v (AList.update u d
          (get_or_empty (AList.update u (AList.update v d (get_or_empty adj u)) adj) v))
        (AList.update u (AList.update v d (get_or_empty adj u)) adj)) x)) =
   set (keys (get_or_empty adj x)) \<union> (if x = u then {v} else {}) \<union> (if x = v then {u} else {})"
  by (auto simp: get_or_empty_update set_keys_update)

lemma ug_ensure_node_props:
  assumes "ug_inv UG"
  shows "ug_inv (ug_ensure_node n UG)"
    "set (keys (ug_adj (ug_ensure_node n UG))) = insert n (set (keys (ug_adj UG)))"
    "nbr_set (ug_ensure_node n UG) x = nbr_set UG x"
proof -
  show "ug_inv (ug_ensure_node n UG)"
    using assms by (auto simp: ug_inv_def ug_ensure_node_def set_keys_update)
  show "set (keys (ug_adj (ug_ensure_node n UG))) = insert n (set (keys (ug_adj UG)))"
    using assms by (auto simp: ug_inv_def ug_ensure_node_def set_keys_update)
  show "nbr_set (ug_ensure_node n UG) x = nbr_set UG x"
  proof (cases "n \<in> set (keys (ug_node UG))")
    case True
    then show ?thesis by (simp add: ug_ensure_node_def)
  next
    case False
    then have "get_or_empty (ug_adj UG) n = []"
      using assms by (simp add: ug_inv_def get_or_empty_absent)
    then show ?thesis
      using False by (simp add: ug_ensure_node_def nbr_set_def get_or_empty_update)
  qed
qed

lemma ug_add_node_props:
  assumes "ug_inv UG"
  shows "ug_inv (ug_add_node n a UG)"
    "set (keys (ug_adj (ug_add_node n a UG))) = insert n (set (keys (ug_adj UG)))"
    "nbr_set (ug_add_node n a UG) x = nbr_set UG x"
proof -
  note e = ug_ensure_node_props [OF assms, of n]
  have adj: "ug_adj (ug_add_node n a UG) = ug_adj (ug_ensure_node n UG)"
    by (simp add: ug_add_node_def Let_def)
  have "n \<in> set (keys (ug_node (ug_ensure_node n UG)))"
    using e(1,2) by (simp add: ug_inv_def)
  then show "ug_inv (ug_add_node n a UG)"
    using e(1) by (auto simp: ug_inv_def ug_add_node_def Let_def set_keys_update)
  show "set (keys (ug_adj (ug_add_node n a UG))) = insert n (set (keys (ug_adj UG)))"
    by (simp add: adj e(2))
  show "nbr_set (ug_add_node n a UG) x = nbr_set UG x"
    using e(3) [of x] by (simp add: nbr_set_def adj)
qed

lemma ug_add_edge_props:
  assumes "ug_inv UG"
  shows "ug_inv (ug_add_edge u v d UG)"
    "set (keys (ug_adj (ug_add_edge u v d UG))) = insert u (insert v (set (keys (ug_adj UG))))"
    "nbr_set (ug_add_edge u v d UG) x =
       nbr_set UG x \<union> (if x = u then {v} else {}) \<union> (if x = v then {u} else {})"
proof -
  let ?U1 = "ug_ensure_node u UG"
  let ?U2 = "ug_ensure_node v ?U1"
  note e1 = ug_ensure_node_props [OF assms, of u]
  note e2 = ug_ensure_node_props [OF e1(1), of v]
  have node: "ug_node (ug_add_edge u v d UG) = ug_node ?U2"
    by (simp add: ug_add_edge_def Let_def)
  have adj: "ug_adj (ug_add_edge u v d UG) =
      AList.update v (AList.update u d
          (get_or_empty (AList.update u (AList.update v d (get_or_empty (ug_adj ?U2) u)) (ug_adj ?U2)) v))
        (AList.update u (AList.update v d (get_or_empty (ug_adj ?U2) u)) (ug_adj ?U2))"
    by (simp add: ug_add_edge_def Let_def)
  have k2: "set (keys (ug_adj ?U2)) = insert v (insert u (set (keys (ug_adj UG))))"
    by (simp add: e2(2) e1(2))
  show "set (keys (ug_adj (ug_add_edge u v d UG))) = insert u (insert v (set (keys (ug_adj UG))))"
    unfolding adj by (auto simp: set_keys_update k2)
  then show "ug_inv (ug_add_edge u v d UG)"
    using e2(1) k2 by (auto simp: ug_inv_def node)
  have n2: "\<And>y. set (keys (get_or_empty (ug_adj ?U2) y)) = set (keys (get_or_empty (ug_adj UG) y))"
    using e2(3) e1(3) by (simp add: nbr_set_def)
  show "nbr_set (ug_add_edge u v d UG) x =
       nbr_set UG x \<union> (if x = u then {v} else {}) \<union> (if x = v then {u} else {})"
    unfolding nbr_set_def adj adj_add_edge n2 ..
qed

lemma fold_ug_add_node:
  assumes "ug_inv UG"
  shows "ug_inv (fold (\<lambda>(n, a). ug_add_node n a) ns UG) \<and>
     set (keys (ug_adj (fold (\<lambda>(n, a). ug_add_node n a) ns UG))) = set (keys (ug_adj UG)) \<union> set (keys ns) \<and>
     (\<forall>x. nbr_set (fold (\<lambda>(n, a). ug_add_node n a) ns UG) x = nbr_set UG x)"
  using assms
proof (induction ns arbitrary: UG)
  case Nil
  then show ?case by simp
next
  case (Cons p ns)
  obtain n a where p: "p = (n, a)" by (cases p)
  note s = ug_add_node_props [OF Cons.prems, of n a]
  show ?case
    using Cons.IH [OF s(1)] s(2,3) by (auto simp: p)
qed

lemma fold_ug_add_edge:
  assumes "ug_inv UG"
  shows "ug_inv (fold (\<lambda>(u, v, d). ug_add_edge u v d) es UG) \<and>
     set (keys (ug_adj (fold (\<lambda>(u, v, d). ug_add_edge u v d) es UG))) =
       set (keys (ug_adj UG)) \<union> {u. \<exists>v d. (u, v, d) \<in> set es} \<union> {v. \<exists>u d. (u, v, d) \<in> set es} \<and>
     (\<forall>x. nbr_set (fold (\<lambda>(u, v, d). ug_add_edge u v d) es UG) x =
        nbr_set UG x \<union> {v. \<exists>d. (x, v, d) \<in> set es} \<union> {u. \<exists>d. (u, x, d) \<in> set es})"
  using assms
proof (induction es arbitrary: UG)
  case Nil
  then show ?case by simp
next
  case (Cons e es)
  obtain u v d where e: "e = (u, v, d)" by (cases e)
  note s = ug_add_edge_props [OF Cons.prems, of u v d]
  have k: "set (keys (ug_adj (fold (\<lambda>(u, v, d). ug_add_edge u v d) (e # es) UG))) =
       set (keys (ug_adj UG)) \<union> {u. \<exists>v d. (u, v, d) \<in> set (e # es)} \<union> {v. \<exists>u d. (u, v, d) \<in> set (e # es)}"
    using Cons.IH [OF s(1)] s(2) by (auto simp: e)
  have n: "\<forall>x. nbr_set (fold (\<lambda>(u, v, d). ug_add_edge u v d) (e # es) UG) x =
        nbr_set UG x \<union> {v. \<exists>d. (x, v, d) \<in> set (e # es)} \<union> {u. \<exists>d. (u, x, d) \<in> set (e # es)}"
  proof
    fix x
    have "nbr_set (fold (\<lambda>(u, v, d). ug_add_edge u v d) (e # es) UG) x =
          nbr_set (ug_add_edge u v d UG) x \<union> {v. \<exists>d. (x, v, d) \<in> set es} \<union> {u. \<exists>d. (u, x, d) \<in> set es}"
      using Cons.IH [OF s(1)] by (simp add: e)
    also have "\<dots> = nbr_set UG x \<union> {v. \<exists>d. (x, v, d) \<in> set (e # es)} \<union> {u. \<exists>d. (u, x, d) \<in> set (e # es)}"
      unfolding s(3) by (auto simp: e)
    finally show "nbr_set (fold (\<lambda>(u, v, d). ug_add_edge u v d) (e # es) UG) x =
        nbr_set UG x \<union> {v. \<exists>d. (x, v, d) \<in> set (e # es)} \<union> {u. \<exists>d. (u, x, d) \<in> set (e # es)}" .
  qed
  show ?case using Cons.IH [OF s(1)] k n by (simp add: e)
qed

lemma wf_edges_nodes:
  assumes "wf_digraph G" "(u, v, d) \<in> set (edges G)"
  shows "u \<in> set (nodes G) \<and> v \<in> set (nodes G)"
proof -
  obtain nbrs where n: "(u, nbrs) \<in> set (g_succ G)" "(v, d) \<in> set nbrs"
    using assms(2) by (auto simp: in_edges_iff)
  have k: "keys (g_succ G) = nodes G"
    and a: "\<forall>(u, nbrs) \<in> set (g_succ G). distinct (keys nbrs) \<and> set (keys nbrs) \<subseteq> set (nodes G)"
    using assms(1) by (simp_all add: wf_digraph_def wf_adjacency_def)
  have "u \<in> set (keys (g_succ G))" using n(1) by (force simp: keys_def)
  then have u: "u \<in> set (nodes G)" by (simp add: k)
  have "set (keys nbrs) \<subseteq> set (nodes G)" using a n(1) by blast
  moreover have "v \<in> set (keys nbrs)" using n(2) by (force simp: keys_def)
  ultimately show ?thesis using u by blast
qed

lemma to_undirected_props:
  assumes "wf_digraph G"
  shows "set (keys (ug_adj (to_undirected G))) = set (nodes G)"
    "nbr_set (to_undirected G) x = {y. (x, y) \<in> set (und_pairs G)}"
    "nbr_set (to_undirected G) x \<subseteq> set (nodes G)"
proof -
  let ?U0 = "fold (\<lambda>(n, a). ug_add_node n a) (g_node G) Graph"
  have i: "ug_inv Graph" by (simp add: ug_inv_def Graph_def)
  note a = fold_ug_add_node [OF i, of "g_node G"]
  have a1: "ug_inv ?U0" using a by blast
  have a2: "set (keys (ug_adj ?U0)) = set (nodes G)"
    using a by (simp add: Graph_def nodes_def)
  have a3: "\<And>x. nbr_set ?U0 x = {}"
    using a by (simp add: nbr_set_def Graph_def get_or_empty_def)
  note b = fold_ug_add_edge [OF a1, of "edges G"]
  have e: "{u. \<exists>v d. (u, v, d) \<in> set (edges G)} \<union> {v. \<exists>u d. (u, v, d) \<in> set (edges G)} \<subseteq> set (nodes G)"
    using wf_edges_nodes [OF assms] by blast
  have "set (keys (ug_adj (to_undirected G))) = set (nodes G) \<union>
      ({u. \<exists>v d. (u, v, d) \<in> set (edges G)} \<union> {v. \<exists>u d. (u, v, d) \<in> set (edges G)})"
    unfolding to_undirected_def using b a2 by (simp add: Un_assoc)
  then show "set (keys (ug_adj (to_undirected G))) = set (nodes G)"
    using e by (simp add: Un_absorb2)
  have n: "nbr_set (to_undirected G) x =
      {v. \<exists>d. (x, v, d) \<in> set (edges G)} \<union> {u. \<exists>d. (u, x, d) \<in> set (edges G)}"
    unfolding to_undirected_def using b a3 by simp
  show "nbr_set (to_undirected G) x = {y. (x, y) \<in> set (und_pairs G)}"
    unfolding n by (auto simp: und_pairs_def)
  show "nbr_set (to_undirected G) x \<subseteq> set (nodes G)"
    unfolding n using wf_edges_nodes [OF assms] by auto
qed

lemma neighbors_nbr_set:
  "neighbors UG n = Inr nbrs \<Longrightarrow> set nbrs = nbr_set UG n"
  by (auto simp: neighbors_def nbr_set_def get_or_empty_def split: option.splits)

lemma neighbors_present:
  "n \<in> set (keys (ug_adj UG)) \<Longrightarrow> \<exists>nbrs. neighbors UG n = Inr nbrs"
  by (cases "map_of (ug_adj UG) n") (auto simp: neighbors_def keys_def map_of_eq_None_iff)

lemma neighbors_absent:
  "n \<notin> set (keys (ug_adj UG)) \<Longrightarrow> neighbors UG n = Inl NetworkXError"
  by (simp add: neighbors_def keys_def map_of_eq_None_iff [THEN iffD2])

subsection \<open>Breadth-first traversal\<close>

lemma layers_append_Nil: "layers_append d n [] = [(d, [n])]"
  by (simp add: layers_append_def get_or_empty_def)

lemma layers_append_Cons:
  "layers_append d n ((k, ns) # L) =
     (if k = d then (k, ns @ [n]) # L else (k, ns) # layers_append d n L)"
  by (simp add: layers_append_def get_or_empty_def)

lemma set_layer_nodes_append:
  "set (layer_nodes (layers_append d n L)) = insert n (set (layer_nodes L))"
proof (induction L)
  case Nil
  then show ?case by (simp add: layers_append_Nil layer_nodes_def)
next
  case (Cons p L)
  obtain k ns where p: "p = (k, ns)" by (cases p)
  have IH: "set (concat (map snd (layers_append d n L))) = insert n (set (concat (map snd L)))"
    using Cons.IH by (simp add: layer_nodes_def)
  show ?case
  proof (cases "k = d")
    case True
    then show ?thesis by (simp add: p layers_append_Cons layer_nodes_def)
  next
    case False
    then show ?thesis
      unfolding p layer_nodes_def by (simp add: layers_append_Cons IH del: set_concat)
  qed
qed

lemma distinct_layer_nodes_append:
  "distinct (layer_nodes (layers_append d n L)) \<longleftrightarrow>
     distinct (layer_nodes L) \<and> n \<notin> set (layer_nodes L)"
proof (induction L)
  case Nil
  then show ?case by (simp add: layers_append_Nil layer_nodes_def)
next
  case (Cons p L)
  obtain k ns where p: "p = (k, ns)" by (cases p)
  show ?case
  proof (cases "k = d")
    case True
    then show ?thesis
      by (auto simp: p layers_append_Cons layer_nodes_def)
  next
    case False
    have s: "set (concat (map snd (layers_append d n L))) = insert n (set (concat (map snd L)))"
      using set_layer_nodes_append [of d n L] by (simp add: layer_nodes_def)
    have IH: "distinct (concat (map snd (layers_append d n L))) \<longleftrightarrow>
        distinct (concat (map snd L)) \<and> n \<notin> set (concat (map snd L))"
      using Cons.IH by (simp add: layer_nodes_def)
    have "distinct (ns @ concat (map snd (layers_append d n L))) \<longleftrightarrow>
        distinct (ns @ concat (map snd L)) \<and> n \<notin> set (ns @ concat (map snd L))"
      unfolding distinct_append set_append IH s by blast
    then show ?thesis
      using False by (simp add: p layers_append_Cons layer_nodes_def del: set_concat distinct_append set_append)
  qed
qed

lemma layers_append_nonempty: "layers_append d n L \<noteq> []"
  by (simp add: layers_append_def)

lemma bfs_nonempty: "bfs UG L V Q = Inr (L', V') \<Longrightarrow> L \<noteq> [] \<or> Q \<noteq> [] \<Longrightarrow> L' \<noteq> []"
proof (induction UG L V Q rule: bfs.induct)
  case (1 UG layers visited)
  then show ?case by simp
next
  case (2 UG layers visited n depth queue)
  from "2.prems"(1) obtain nbrs where nb: "neighbors UG n = Inr nbrs"
    by (cases "neighbors UG n") auto
  obtain visited' queue' where vn: "visit_neighbors nbrs depth (visited, queue) = (visited', queue')"
    by (cases "visit_neighbors nbrs depth (visited, queue)")
  have "bfs UG (layers_append depth n layers) visited' queue' = Inr (L', V')"
    using "2.prems"(1) by (simp add: nb vn)
  then show ?case
    using "2.IH" [OF nb vn [symmetric]] by (simp add: layers_append_nonempty)
qed

lemma bfs_invariant:
  assumes "\<forall>x \<in> set (keys (ug_adj UG)). nbr_set UG x \<subseteq> set (keys (ug_adj UG))"
    and "fst ` set Q \<subseteq> set (keys (ug_adj UG))"
    and "distinct (layer_nodes L @ map fst Q)"
    and "set (layer_nodes L) \<union> fst ` set Q = V"
    and "\<forall>x \<in> set (layer_nodes L). nbr_set UG x \<subseteq> V"
  shows "\<exists>L' V'. bfs UG L V Q = Inr (L', V') \<and> distinct (layer_nodes L') \<and>
     set (layer_nodes L') = V' \<and> V \<subseteq> V' \<and> V' \<subseteq> V \<union> set (keys (ug_adj UG)) \<and>
     (\<forall>x \<in> V'. nbr_set UG x \<subseteq> V') \<and>
     (\<forall>R. V \<subseteq> R \<and> (\<forall>x \<in> R. nbr_set UG x \<subseteq> R) \<longrightarrow> V' \<subseteq> R)"
  using assms
proof (induction UG L V Q rule: bfs.induct)
  case (1 UG layers visited)
  then show ?case by auto
next
  case (2 UG layers visited n depth queue)
  let ?K = "set (keys (ug_adj UG))"
  have nK: "n \<in> ?K" using "2.prems"(2) by simp
  then obtain nbrs where nb: "neighbors UG n = Inr nbrs"
    using neighbors_present by blast
  have ns: "set nbrs = nbr_set UG n" by (rule neighbors_nbr_set [OF nb])
  obtain visited' queue' where vn: "visit_neighbors nbrs depth (visited, queue) = (visited', queue')"
    by (cases "visit_neighbors nbrs depth (visited, queue)")
  from visit_neighbors_spec [OF vn] obtain new where
    new: "queue' = queue @ map (\<lambda>n. (n, depth + 1)) new" "distinct new"
      "set new = set nbrs - visited" "visited' = visited \<union> set nbrs"
    by blast
  have fq: "map fst queue' = map fst queue @ new"
    by (simp add: new(1) comp_def)
  have fqs: "fst ` set queue' = fst ` set queue \<union> set new"
    using arg_cong [OF fq, of set] by simp
  have nbK: "set nbrs \<subseteq> ?K" using "2.prems"(1) nK ns by blast
  have V: "visited = insert n (set (layer_nodes layers) \<union> fst ` set queue)"
    using "2.prems"(4) by auto
  have p1: "\<forall>x \<in> ?K. nbr_set UG x \<subseteq> ?K" by (rule "2.prems"(1))
  have p2: "fst ` set queue' \<subseteq> ?K"
    using "2.prems"(2) nbK new(3) unfolding fqs by auto
  have d0: "distinct (layer_nodes layers)" "n \<notin> set (layer_nodes layers)"
    "distinct (map fst queue)" "n \<notin> fst ` set queue"
    "set (layer_nodes layers) \<inter> fst ` set queue = {}"
    using "2.prems"(3) by auto
  have p3: "distinct (layer_nodes (layers_append depth n layers) @ map fst queue')"
    unfolding fq using d0 new(2,3) V
    by (auto simp: distinct_layer_nodes_append set_layer_nodes_append)
  have p4: "set (layer_nodes (layers_append depth n layers)) \<union> fst ` set queue' = visited'"
    using V new(3,4) unfolding fqs by (auto simp: set_layer_nodes_append)
  have p5: "\<forall>x \<in> set (layer_nodes (layers_append depth n layers)). nbr_set UG x \<subseteq> visited'"
    using "2.prems"(5) ns new(4) by (auto simp: set_layer_nodes_append)
  have "\<exists>L' V'. bfs UG (layers_append depth n layers) visited' queue' = Inr (L', V') \<and>
     distinct (layer_nodes L') \<and> set (layer_nodes L') = V' \<and> visited' \<subseteq> V' \<and>
     V' \<subseteq> visited' \<union> ?K \<and> (\<forall>x \<in> V'. nbr_set UG x \<subseteq> V') \<and>
     (\<forall>R. visited' \<subseteq> R \<and> (\<forall>x \<in> R. nbr_set UG x \<subseteq> R) \<longrightarrow> V' \<subseteq> R)"
    by (rule "2.IH" [OF nb vn [symmetric] p1 p2 p3 p4 p5])
  then obtain L' V' where r: "bfs UG (layers_append depth n layers) visited' queue' = Inr (L', V')"
    "distinct (layer_nodes L')" "set (layer_nodes L') = V'" "visited' \<subseteq> V'"
    "V' \<subseteq> visited' \<union> ?K" "\<forall>x \<in> V'. nbr_set UG x \<subseteq> V'"
    "\<forall>R. visited' \<subseteq> R \<and> (\<forall>x \<in> R. nbr_set UG x \<subseteq> R) \<longrightarrow> V' \<subseteq> R"
    by (elim exE conjE)
  have b: "bfs UG layers visited ((n, depth) # queue) = Inr (L', V')"
    using r(1) by (simp add: nb vn)
  have c4: "visited \<subseteq> V'" using r(4) new(4) by blast
  have c5: "V' \<subseteq> visited \<union> ?K" using r(5) new(4) nbK by blast
  have c7: "\<forall>R. visited \<subseteq> R \<and> (\<forall>x \<in> R. nbr_set UG x \<subseteq> R) \<longrightarrow> V' \<subseteq> R"
  proof (intro allI impI)
    fix R
    assume a: "visited \<subseteq> R \<and> (\<forall>x \<in> R. nbr_set UG x \<subseteq> R)"
    have "n \<in> R" using a V by blast
    then have "set nbrs \<subseteq> R" using a ns by blast
    then have "visited' \<subseteq> R" using a new(4) by blast
    then show "V' \<subseteq> R" using r(7) a by blast
  qed
  show ?case
    by (rule exI [of _ L'], rule exI [of _ V'])
       (rule conjI [OF b conjI [OF r(2) conjI [OF r(3) conjI [OF c4 conjI [OF c5 conjI [OF r(6) c7]]]]]])
qed

subsection \<open>Unreached nodes and positions\<close>

lemma layers_append_absent:
  "d \<notin> set (keys L) \<Longrightarrow> layers_append d n L = L @ [(d, [n])]"
  by (simp add: layers_append_def get_or_empty_absent update_absent)

lemma place_unvisited_spec:
  assumes "\<forall>k \<in> set (keys L). k \<le> m"
  shows "place_unvisited ns V m L =
     L @ map (\<lambda>i. (m + 1 + int i, [filter (\<lambda>n. n \<notin> V) ns ! i]))
            [0..<length (filter (\<lambda>n. n \<notin> V) ns)]"
  using assms
proof (induction ns arbitrary: m L)
  case Nil
  then show ?case by simp
next
  case (Cons n ns)
  show ?case
  proof (cases "n \<in> V")
    case True
    then show ?thesis using Cons.IH [OF Cons.prems] by simp
  next
    case False
    have a: "m + 1 \<notin> set (keys L)" using Cons.prems by auto
    have b: "\<forall>k \<in> set (keys (L @ [(m + 1, [n])])). k \<le> m + 1"
      using Cons.prems by auto
    have "place_unvisited (n # ns) V m L = place_unvisited ns V (m + 1) (L @ [(m + 1, [n])])"
      using False by (simp add: layers_append_absent [OF a])
    also have "\<dots> = (L @ [(m + 1, [n])]) @
        map (\<lambda>i. (m + 1 + 1 + int i, [filter (\<lambda>n. n \<notin> V) ns ! i]))
            [0..<length (filter (\<lambda>n. n \<notin> V) ns)]"
      by (rule Cons.IH [OF b])
    also have "\<dots> = L @ map (\<lambda>i. (m + 1 + int i, [filter (\<lambda>n. n \<notin> V) (n # ns) ! i]))
            [0..<length (filter (\<lambda>n. n \<notin> V) (n # ns))]"
      using False by (simp add: map_upt_Suc add.assoc del: upt_Suc)
    finally show ?thesis .
  qed
qed

lemma fold_enumerate_other:
  "n \<notin> set ns \<Longrightarrow> fold (\<lambda>(i, n) pos. pos(n \<mapsto> f i)) (enumerate k ns) pos n = pos n"
  by (induction ns arbitrary: k pos) simp_all

lemma fold_enumerate_at:
  "distinct ns \<Longrightarrow> i < length ns \<Longrightarrow>
     fold (\<lambda>(i, n) pos. pos(n \<mapsto> f i)) (enumerate k ns) pos (ns ! i) = Some (f (k + i))"
proof (induction ns arbitrary: k pos i)
  case Nil
  then show ?case by simp
next
  case (Cons x xs)
  show ?case
  proof (cases i)
    case 0
    have "fold (\<lambda>(i, n) pos. pos(n \<mapsto> f i)) (enumerate k (x # xs)) pos x =
          fold (\<lambda>(i, n) pos. pos(n \<mapsto> f i)) (enumerate (Suc k) xs) (pos(x \<mapsto> f k)) x"
      by simp
    also have "\<dots> = (pos(x \<mapsto> f k)) x"
      using Cons.prems by (intro fold_enumerate_other) simp
    also have "\<dots> = Some (f (k + i))" by (simp add: 0)
    finally show ?thesis by (simp only: 0 nth_Cons_0)
  next
    case (Suc j)
    then show ?thesis using Cons.prems Cons.IH [of j "Suc k"] by simp
  qed
qed

lemma dom_fold_enumerate:
  "dom (fold (\<lambda>(i, n) pos. pos(n \<mapsto> f i)) (enumerate k ns) pos) = dom pos \<union> set ns"
  by (induction ns arbitrary: k pos) auto

lemma place_row_other: "n \<notin> set ns \<Longrightarrow> place_row d ns pos n = pos n"
  by (simp add: place_row_def Let_def fold_enumerate_other)

lemma place_row_at:
  "distinct ns \<Longrightarrow> i < length ns \<Longrightarrow>
     place_row d ns pos (ns ! i) =
       Some (- real_of_int ((int (length ns) - 1) * 150) / 2 + real i * 150, real_of_int (d * 170))"
proof -
  assume a: "distinct ns" "i < length ns"
  have "place_row d ns pos (ns ! i) =
      Some (- real_of_int ((int (length ns) - 1) * horizontal_gap) / 2 +
              real (0 + i) * real_of_int horizontal_gap,
            real_of_int (d * vertical_gap))"
    unfolding place_row_def Let_def
    by (rule fold_enumerate_at
          [where f = "\<lambda>i. (- real_of_int ((int (length ns) - 1) * horizontal_gap) / 2 +
              real i * real_of_int horizontal_gap, real_of_int (d * vertical_gap))", OF a])
  then show ?thesis by (simp add: horizontal_gap_def vertical_gap_def)
qed

lemma dom_place_row: "dom (place_row d ns pos) = dom pos \<union> set ns"
  by (simp add: place_row_def Let_def dom_fold_enumerate)

lemma place_all_other:
  "n \<notin> set (layer_nodes L) \<Longrightarrow> fold (\<lambda>(d, ns). place_row d ns) L pos n = pos n"
  by (induction L arbitrary: pos) (auto simp: layer_nodes_def place_row_other)

lemma dom_place_all:
  "dom (fold (\<lambda>(d, ns). place_row d ns) L pos) = dom pos \<union> set (layer_nodes L)"
proof (induction L arbitrary: pos)
  case Nil
  then show ?case by (simp add: layer_nodes_def)
next
  case (Cons p L)
  obtain d ns where p: "p = (d, ns)" by (cases p)
  have "dom (fold (\<lambda>(d, ns). place_row d ns) (p # L) pos) =
        dom (place_row d ns pos) \<union> set (layer_nodes L)"
    using Cons.IH [of "place_row d ns pos"] by (simp add: p)
  also have "\<dots> = dom pos \<union> set (layer_nodes (p # L))"
    by (simp add: dom_place_row p layer_nodes_def Un_assoc)
  finally show ?case .
qed

lemma place_all_at:
  assumes "distinct (layer_nodes L)" "(d, ns) \<in> set L" "i < length ns"
  shows "fold (\<lambda>(d, ns). place_row d ns) L pos (ns ! i) =
       Some (- real_of_int ((int (length ns) - 1) * 150) / 2 + real i * 150, real_of_int (d * 170))"
  using assms
proof (induction L arbitrary: pos)
  case Nil
  then show ?case by simp
next
  case (Cons p L)
  obtain d0 ns0 where p: "p = (d0, ns0)" by (cases p)
  have dl: "distinct ns0" "distinct (layer_nodes L)" "set ns0 \<inter> set (layer_nodes L) = {}"
    using Cons.prems(1) by (simp_all add: p layer_nodes_def)
  show ?case
  proof (cases "(d, ns) \<in> set L")
    case True
    then show ?thesis using Cons.IH [OF dl(2) True Cons.prems(3)] by (simp add: p)
  next
    case False
    then have e: "d0 = d" "ns0 = ns" using Cons.prems(2) by (simp_all add: p)
    have "ns ! i \<in> set ns" using Cons.prems(3) by simp
    then have "ns ! i \<notin> set (layer_nodes L)" using dl(3) e by blast
    then show ?thesis
      using dl(1) Cons.prems(3) by (simp add: p e place_all_other place_row_at)
  qed
qed

lemma set_layer_nodes_sort: "set (layer_nodes (sort_layers UG L)) = set (layer_nodes L)"
  by (induction L) (auto simp: sort_layers_def layer_nodes_def)

lemma distinct_layer_nodes_sort:
  "distinct (layer_nodes (sort_layers UG L)) \<longleftrightarrow> distinct (layer_nodes L)"
proof (induction L)
  case Nil
  then show ?case by (simp add: sort_layers_def layer_nodes_def)
next
  case (Cons p L)
  obtain d ns where p: "p = (d, ns)" by (cases p)
  have s: "set (concat (map snd (sort_layers UG L))) = set (concat (map snd L))"
    using set_layer_nodes_sort [of UG L] by (simp add: layer_nodes_def)
  have c: "sort_layers UG ((d, ns) # L) = (d, sort_key (\<lambda>n. - int (degree UG n)) ns) # sort_layers UG L"
    by (simp add: sort_layers_def)
  have IH: "distinct (concat (map snd (sort_layers UG L))) \<longleftrightarrow> distinct (concat (map snd L))"
    using Cons.IH by (simp add: layer_nodes_def)
  show ?case
    unfolding layer_nodes_def p c
    by (simp add: IH s del: set_concat)
qed

lemma in_sort_layers:
  "(d, ns) \<in> set L \<Longrightarrow> (d, sort_key (\<lambda>n. - int (degree UG n)) ns) \<in> set (sort_layers UG L)"
  by (force simp: sort_layers_def)

lemma bfs_from_root:
  assumes "wf_digraph G" "has_node G r"
  shows "\<exists>L V. bfs (to_undirected G) [] {r} [(r, 0)] = Inr (L, V) \<and> L \<noteq> [] \<and>
     V = (set (und_pairs G))\<^sup>* `` {r} \<and> distinct (layer_nodes L) \<and>
     set (layer_nodes L) = V \<and> V \<subseteq> set (nodes G)"
proof -
  let ?UG = "to_undirected G"
  note u = to_undirected_props [OF assms(1)]
  have rK: "r \<in> set (nodes G)" using assms(2) by (simp add: has_node_def)
  have p1: "\<forall>x \<in> set (keys (ug_adj ?UG)). nbr_set ?UG x \<subseteq> set (keys (ug_adj ?UG))"
    using u(1,3) by simp
  have p2: "fst ` set [(r, 0::int)] \<subseteq> set (keys (ug_adj ?UG))"
    using rK u(1) by simp
  have p3: "distinct (layer_nodes [] @ map fst [(r, 0::int)])" by (simp add: layer_nodes_def)
  have p4: "set (layer_nodes []) \<union> fst ` set [(r, 0::int)] = {r}" by (simp add: layer_nodes_def)
  have p5: "\<forall>x \<in> set (layer_nodes []). nbr_set ?UG x \<subseteq> {r}" by (simp add: layer_nodes_def)
  have "\<exists>L' V'. bfs ?UG [] {r} [(r, 0)] = Inr (L', V') \<and> distinct (layer_nodes L') \<and>
     set (layer_nodes L') = V' \<and> {r} \<subseteq> V' \<and> V' \<subseteq> {r} \<union> set (keys (ug_adj ?UG)) \<and>
     (\<forall>x \<in> V'. nbr_set ?UG x \<subseteq> V') \<and>
     (\<forall>R. {r} \<subseteq> R \<and> (\<forall>x \<in> R. nbr_set ?UG x \<subseteq> R) \<longrightarrow> V' \<subseteq> R)"
    by (rule bfs_invariant [OF p1 p2 p3 p4 p5])
  then obtain L V where b: "bfs ?UG [] {r} [(r, 0)] = Inr (L, V)" "distinct (layer_nodes L)"
    "set (layer_nodes L) = V" "{r} \<subseteq> V" "V \<subseteq> {r} \<union> set (keys (ug_adj ?UG))"
    "\<forall>x \<in> V. nbr_set ?UG x \<subseteq> V"
    "\<forall>R. {r} \<subseteq> R \<and> (\<forall>x \<in> R. nbr_set ?UG x \<subseteq> R) \<longrightarrow> V \<subseteq> R"
    by (elim exE conjE)
  have ne: "L \<noteq> []" using bfs_nonempty [OF b(1)] by simp
  let ?E = "set (und_pairs G)"
  have sub: "V \<subseteq> ?E\<^sup>* `` {r}"
  proof -
    have "{r} \<subseteq> ?E\<^sup>* `` {r}" by auto
    moreover have "\<forall>x \<in> ?E\<^sup>* `` {r}. nbr_set ?UG x \<subseteq> ?E\<^sup>* `` {r}"
      unfolding u(2) by (auto intro: rtrancl_into_rtrancl)
    ultimately show ?thesis using b(7) by blast
  qed
  have sup: "?E\<^sup>* `` {r} \<subseteq> V"
  proof
    fix y
    assume "y \<in> ?E\<^sup>* `` {r}"
    then have "(r, y) \<in> ?E\<^sup>*" by simp
    then show "y \<in> V"
    proof (induction rule: rtrancl_induct)
      case base
      then show ?case using b(4) by simp
    next
      case (step y z)
      then have "z \<in> nbr_set ?UG y" by (simp add: u(2))
      then show ?case using step.IH b(6) by blast
    qed
  qed
  have V: "V = ?E\<^sup>* `` {r}" using sub sup by blast
  have VK: "V \<subseteq> set (nodes G)" using b(5) rK u(1) by auto
  show ?thesis
    by (rule exI [of _ L], rule exI [of _ V])
       (rule conjI [OF b(1) conjI [OF ne conjI [OF V conjI [OF b(2) conjI [OF b(3) VK]]]]])
qed

lemma tree_layers_result:
  assumes "bfs (to_undirected G) [] {r} [(r, 0)] = Inr (L, V)" "L \<noteq> []"
  shows "tree_layers G r =
     Inr (L @ map (\<lambda>i. (Max (set (keys L)) + 1 + int i, [filter (\<lambda>n. n \<notin> V) (nodes G) ! i]))
                 [0..<length (filter (\<lambda>n. n \<notin> V) (nodes G))])"
proof -
  have "\<forall>k \<in> set (keys L). k \<le> Max (set (keys L))" by simp
  from place_unvisited_spec [OF this, of "nodes G" V]
  show ?thesis using assms by (simp add: tree_layers_def Let_def)
qed

lemma layer_nodes_append: "layer_nodes (L @ L') = layer_nodes L @ layer_nodes L'"
  by (simp add: layer_nodes_def)

lemma layer_nodes_singletons:
  "layer_nodes (map (\<lambda>i. (g i, [us ! i])) [0..<length us]) = us"
proof -
  have "concat (map (\<lambda>i. [us ! i]) [0..<length us]) = map (\<lambda>i. us ! i) [0..<length us]"
    by (induction "length us" arbitrary: us) (simp_all add: concat_map_singleton)
  then show ?thesis by (simp add: layer_nodes_def comp_def map_nth)
qed

section \<open>Claims about the graph builder\<close>

text \<open>
  C1.  For every sequence of entry rows and relationship rows, the nodes of the built graph
  are exactly the entry ids, and there is an edge from \<open>u\<close> to \<open>v\<close> exactly when some
  relationship row goes from \<open>u\<close> to \<open>v\<close> and both are entry ids.  Hence both endpoints of
  every edge are nodes of the graph, and a row with an endpoint that is no entry id can be
  removed from the input without changing the result.  The builder has no failing branch on
  such rows.  With entries 1 and 2 and the single relationship from 1 to 3 the graph has
  2 nodes and no edge.
\<close>

theorem build_graph_no_dangling_edges:
  "distinct (nodes (build_graph es rs)) \<and>
   set (nodes (build_graph es rs)) = entry_id ` set es \<and>
   (\<forall>u v. (\<exists>d. (u, v, d) \<in> set (edges (build_graph es rs))) \<longleftrightarrow>
      (\<exists>r \<in> set rs. entry_a r = u \<and> entry_b r = v \<and>
         u \<in> entry_id ` set es \<and> v \<in> entry_id ` set es)) \<and>
   (\<forall>(u, v, d) \<in> set (edges (build_graph es rs)).
      has_node (build_graph es rs) u \<and> has_node (build_graph es rs) v) \<and>
   (\<forall>rs1 r rs2. rs = rs1 @ r # rs2 \<and>
      (entry_a r \<notin> entry_id ` set es \<or> entry_b r \<notin> entry_id ` set es) \<longrightarrow>
      build_graph es rs = build_graph es (rs1 @ rs2)) \<and>
   (\<forall>e1 e2 r. entry_id e1 = 1 \<and> entry_id e2 = 2 \<and> entry_a r = 1 \<and> entry_b r = 3 \<longrightarrow>
      length (nodes (build_graph [e1, e2] [r])) = 2 \<and> edges (build_graph [e1, e2] [r]) = [])"
proof -
  let ?E = "fold add_entry_node es DiGraph"
  let ?G = "build_graph es rs"
  have wf0: "wf_digraph ?E" by (rule wf_fold_entries [OF wf_digraph_empty])
  have wf: "wf_digraph ?G" by (rule wf_digraph_build_graph)
  have ids: "set (nodes ?G) = entry_id ` set es" by (rule set_nodes_build_graph)
  have hn0: "\<And>n. has_node ?E n \<longleftrightarrow> n \<in> entry_id ` set es"
    using set_nodes_fold_entries [OF wf_digraph_empty, of es]
    by (simp add: has_node_def nodes_def DiGraph_def)
  have char: "\<And>es rs u v. (\<exists>d. (u, v, d) \<in> set (edges (build_graph es rs))) \<longleftrightarrow>
      (\<exists>r \<in> set rs. entry_a r = u \<and> entry_b r = v \<and>
         u \<in> entry_id ` set es \<and> v \<in> entry_id ` set es)"
  proof -
    fix es rs u v
    let ?F = "fold add_entry_node es DiGraph"
    have w0: "wf_digraph ?F" by (rule wf_fold_entries [OF wf_digraph_empty])
    have h0: "\<And>n. has_node ?F n \<longleftrightarrow> n \<in> entry_id ` set es"
      using set_nodes_fold_entries [OF wf_digraph_empty, of es]
      by (simp add: has_node_def nodes_def DiGraph_def)
    have "(\<exists>d. (u, v, d) \<in> set (edges (build_graph es rs))) \<longleftrightarrow>
          edge_label (build_graph es rs) u v \<noteq> None"
      by (simp add: wf_edge_label [OF wf_digraph_build_graph])
    also have "\<dots> \<longleftrightarrow> (\<exists>r \<in> set rs. entry_a r = u \<and> entry_b r = v \<and>
         u \<in> entry_id ` set es \<and> v \<in> entry_id ` set es)"
      using edge_label_fold_Some [OF w0, of rs u v] unfolding build_graph_def
      by (simp add: edge_label_fold_entries h0)
    finally show "(\<exists>d. (u, v, d) \<in> set (edges (build_graph es rs))) \<longleftrightarrow>
      (\<exists>r \<in> set rs. entry_a r = u \<and> entry_b r = v \<and>
         u \<in> entry_id ` set es \<and> v \<in> entry_id ` set es)" .
  qed
  have dangling: "\<forall>(u, v, d) \<in> set (edges ?G). has_node ?G u \<and> has_node ?G v"
  proof (clarify)
    fix u v d
    assume "(u, v, d) \<in> set (edges ?G)"
    then have "\<exists>d. (u, v, d) \<in> set (edges ?G)" by blast
    then have "u \<in> entry_id ` set es \<and> v \<in> entry_id ` set es"
      unfolding char by blast
    then show "has_node ?G u \<and> has_node ?G v"
      by (simp add: has_node_def ids)
  qed
  have skip: "\<And>rs1 r rs2. rs = rs1 @ r # rs2 \<and>
      (entry_a r \<notin> entry_id ` set es \<or> entry_b r \<notin> entry_id ` set es) \<Longrightarrow>
      build_graph es rs = build_graph es (rs1 @ rs2)"
  proof -
    fix rs1 r rs2
    assume a: "rs = rs1 @ r # rs2 \<and>
      (entry_a r \<notin> entry_id ` set es \<or> entry_b r \<notin> entry_id ` set es)"
    let ?M = "fold add_relationship_edge rs1 ?E"
    have "\<And>n. has_node ?M n \<longleftrightarrow> n \<in> entry_id ` set es"
      by (simp add: has_node_fold_relationships [OF wf0] hn0)
    then have "add_relationship_edge r ?M = ?M"
      using a by (auto simp: add_relationship_edge_def Let_def)
    then show "build_graph es rs = build_graph es (rs1 @ rs2)"
      using a by (simp add: build_graph_def)
  qed
  have ex: "\<And>e1 e2 r. entry_id e1 = 1 \<and> entry_id e2 = 2 \<and> entry_a r = 1 \<and> entry_b r = 3 \<Longrightarrow>
      length (nodes (build_graph [e1, e2] [r])) = 2 \<and> edges (build_graph [e1, e2] [r]) = []"
  proof -
    fix e1 e2 :: entry_row and r :: rel_row
    assume a: "entry_id e1 = 1 \<and> entry_id e2 = 2 \<and> entry_a r = 1 \<and> entry_b r = 3"
    let ?H = "build_graph [e1, e2] [r]"
    have "distinct (nodes ?H)" using wf_digraph_build_graph by (simp add: wf_digraph_def)
    then have "length (nodes ?H) = card (set (nodes ?H))" by (simp add: distinct_card)
    also have "\<dots> = 2" using a by (simp add: set_nodes_build_graph)
    finally have n2: "length (nodes ?H) = 2" .
    have "\<And>u v. \<not> (\<exists>d. (u, v, d) \<in> set (edges ?H))"
      unfolding char using a by simp
    then have "\<And>u v d. (u, v, d) \<notin> set (edges ?H)" by blast
    then have "edges ?H = []" by (cases "edges ?H") auto
    with n2 show "length (nodes ?H) = 2 \<and> edges ?H = []" by simp
  qed
  have d: "distinct (nodes ?G)" using wf by (simp add: wf_digraph_def)
  have c3: "\<forall>u v. (\<exists>d. (u, v, d) \<in> set (edges ?G)) \<longleftrightarrow>
      (\<exists>r \<in> set rs. entry_a r = u \<and> entry_b r = v \<and>
         u \<in> entry_id ` set es \<and> v \<in> entry_id ` set es)"
    using char [of _ _ es rs] by blast
  have c5: "\<forall>rs1 r rs2. rs = rs1 @ r # rs2 \<and>
      (entry_a r \<notin> entry_id ` set es \<or> entry_b r \<notin> entry_id ` set es) \<longrightarrow>
      build_graph es rs = build_graph es (rs1 @ rs2)"
    using skip by blast
  have c6: "\<forall>e1 e2 r. entry_id e1 = 1 \<and> entry_id e2 = 2 \<and> entry_a r = 1 \<and> entry_b r = 3 \<longrightarrow>
      length (nodes (build_graph [e1, e2] [r])) = 2 \<and> edges (build_graph [e1, e2] [r]) = []"
    using ex by blast
  show ?thesis
    by (rule conjI [OF d conjI [OF ids conjI [OF c3 conjI [OF dangling conjI [OF c5 c6]]]]])
qed

theorem build_graph_no_dangling_edges_witness:
  "(1, 2, ''relationship'') \<in> set (edges (build_graph entries_ex [rel_ex 1 1 3 None, rel_ex 2 1 2 None])) \<and>
   has_node (build_graph entries_ex [rel_ex 1 1 3 None, rel_ex 2 1 2 None]) 1 \<and>
   has_node (build_graph entries_ex [rel_ex 1 1 3 None, rel_ex 2 1 2 None]) 2 \<and>
   build_graph entries_ex [rel_ex 1 1 3 None, rel_ex 2 1 2 None] =
     build_graph entries_ex [rel_ex 2 1 2 None]"
proof -
  let ?rs = "[rel_ex 1 1 3 None, rel_ex 2 1 2 None]"
  note th = build_graph_no_dangling_edges [of entries_ex ?rs]
  have e: "(1, 2, ''relationship'') \<in> set (edges (build_graph entries_ex ?rs))"
    by (simp add: graph_eval)
  have "\<forall>(u, v, d) \<in> set (edges (build_graph entries_ex ?rs)).
      has_node (build_graph entries_ex ?rs) u \<and> has_node (build_graph entries_ex ?rs) v"
    using th by (elim conjE)
  with e have h: "has_node (build_graph entries_ex ?rs) 1 \<and> has_node (build_graph entries_ex ?rs) 2"
    by fastforce
  have "\<forall>rs1 r rs2. ?rs = rs1 @ r # rs2 \<and>
      (entry_a r \<notin> entry_id ` set entries_ex \<or> entry_b r \<notin> entry_id ` set entries_ex) \<longrightarrow>
      build_graph entries_ex ?rs = build_graph entries_ex (rs1 @ rs2)"
    using th by (elim conjE)
  then have "?rs = [] @ rel_ex 1 1 3 None # [rel_ex 2 1 2 None] \<and>
      (entry_a (rel_ex 1 1 3 None) \<notin> entry_id ` set entries_ex \<or>
       entry_b (rel_ex 1 1 3 None) \<notin> entry_id ` set entries_ex) \<longrightarrow>
      build_graph entries_ex ?rs = build_graph entries_ex ([] @ [rel_ex 2 1 2 None])"
    by (elim allE)
  then have "build_graph entries_ex ?rs = build_graph entries_ex [rel_ex 2 1 2 None]"
    by (simp add: entries_ex_def entry_ex_def rel_ex_def)
  with e h show ?thesis by (intro conjI) simp_all
qed


text \<open>
  C6.  The graph is a \<^verbatim>\<open>DiGraph\<close>, which holds at most one edge for an ordered pair of
  nodes: a second relationship row between the same two entries in the same direction
  overwrites the label of the first.  With entries 1 and 2 and the rows 1 to 2 ``Ally'' and
  1 to 2 ``Enemy'', both rows have their endpoints present, yet the graph has the single
  edge labelled ``Enemy''.
\<close>

theorem build_graph_duplicate_rows_one_edge:
  "length (filter (\<lambda>r. entry_a r \<in> entry_id ` set entries_ex \<and> entry_b r \<in> entry_id ` set entries_ex)
      [rel_ex 1 1 2 (Some ''Ally''), rel_ex 2 1 2 (Some ''Enemy'')]) = 2 \<and>
   edges (build_graph entries_ex [rel_ex 1 1 2 (Some ''Ally''), rel_ex 2 1 2 (Some ''Enemy'')]) =
     [(1, 2, ''Enemy'')]"
  by (simp add: graph_eval)

text \<open>
  C8.  Defaults replace missing or empty values.  The node of an entry (the last row with
  its id, ids being unique in the store) is labelled with the title, or with \<open>ID\<close> and the id
  when the title is \<^verbatim>\<open>NULL\<close> or empty, and carries the category, or \<open>default\<close> when the
  category is \<^verbatim>\<open>NULL\<close> or empty.  The edge of a relationship row whose endpoints are
  entries (the last row for its ordered pair) is labelled with the type, or with
  \<open>relationship\<close> when the type is \<^verbatim>\<open>NULL\<close> or empty.  The builder is a total function of
  the rows: no value of these fields makes it fail.
\<close>

theorem build_graph_defaults:
  "(\<forall>es1 e es2. es = es1 @ e # es2 \<and> entry_id e \<notin> entry_id ` set es2 \<longrightarrow>
      map_of (g_node (build_graph es rs)) (entry_id e) =
        Some \<lparr>label = Some (if title e = None \<or> title e = Some []
                            then ''ID '' @ py_str_int (entry_id e) else the (title e)),
              node_category = Some (if category e = None \<or> category e = Some []
                            then ''default'' else the (category e))\<rparr>) \<and>
   (\<forall>rs1 r rs2. rs = rs1 @ r # rs2 \<and>
      (\<forall>r' \<in> set rs2. \<not> (entry_a r' = entry_a r \<and> entry_b r' = entry_b r)) \<and>
      entry_a r \<in> entry_id ` set es \<and> entry_b r \<in> entry_id ` set es \<longrightarrow>
      (\<forall>d. (entry_a r, entry_b r, d) \<in> set (edges (build_graph es rs)) \<longleftrightarrow>
         d = (if rel_type r = None \<or> rel_type r = Some [] then ''relationship''
              else the (rel_type r))))"
proof -
  let ?E = "fold add_entry_node es DiGraph"
  have wfE: "wf_digraph ?E" by (rule wf_fold_entries [OF wf_digraph_empty])
  have hn: "\<And>n. has_node ?E n \<longleftrightarrow> n \<in> entry_id ` set es"
    using set_nodes_fold_entries [OF wf_digraph_empty, of es]
    by (simp add: has_node_def nodes_def DiGraph_def)
  have gn: "g_node (build_graph es rs) = g_node ?E"
    using wf_fold_relationships [OF wfE, of rs] by (simp add: build_graph_def)
  have n: "\<forall>es1 e es2. es = es1 @ e # es2 \<and> entry_id e \<notin> entry_id ` set es2 \<longrightarrow>
      map_of (g_node (build_graph es rs)) (entry_id e) =
        Some \<lparr>label = Some (if title e = None \<or> title e = Some []
                            then ''ID '' @ py_str_int (entry_id e) else the (title e)),
              node_category = Some (if category e = None \<or> category e = Some []
                            then ''default'' else the (category e))\<rparr>"
  proof (intro allI impI)
    fix es1 e es2
    assume a: "es = es1 @ e # es2 \<and> entry_id e \<notin> entry_id ` set es2"
    have "map_of (g_node (fold add_entry_node (es1 @ e # es2) DiGraph)) (entry_id e) =
      Some \<lparr>label = Some (py_or (title e) (''ID '' @ py_str_int (entry_id e))),
            node_category = Some (py_or (category e) ''default'')\<rparr>"
      using a by (intro node_attrs_fold_last [OF wf_digraph_empty]) simp
    then show "map_of (g_node (build_graph es rs)) (entry_id e) =
        Some \<lparr>label = Some (if title e = None \<or> title e = Some []
                            then ''ID '' @ py_str_int (entry_id e) else the (title e)),
              node_category = Some (if category e = None \<or> category e = Some []
                            then ''default'' else the (category e))\<rparr>"
      using a unfolding gn py_or_unfold by simp
  qed
  have r: "\<forall>rs1 r rs2. rs = rs1 @ r # rs2 \<and>
      (\<forall>r' \<in> set rs2. \<not> (entry_a r' = entry_a r \<and> entry_b r' = entry_b r)) \<and>
      entry_a r \<in> entry_id ` set es \<and> entry_b r \<in> entry_id ` set es \<longrightarrow>
      (\<forall>d. (entry_a r, entry_b r, d) \<in> set (edges (build_graph es rs)) \<longleftrightarrow>
         d = (if rel_type r = None \<or> rel_type r = Some [] then ''relationship''
              else the (rel_type r)))"
  proof (intro allI impI)
    fix rs1 r rs2 d
    assume a: "rs = rs1 @ r # rs2 \<and>
      (\<forall>r' \<in> set rs2. \<not> (entry_a r' = entry_a r \<and> entry_b r' = entry_b r)) \<and>
      entry_a r \<in> entry_id ` set es \<and> entry_b r \<in> entry_id ` set es"
    have "edge_label (fold add_relationship_edge (rs1 @ r # rs2) ?E) (entry_a r) (entry_b r) =
           Some (py_or (rel_type r) ''relationship'')"
      using a by (intro edge_label_fold_last [OF wfE]) (simp_all add: hn)
    then have "edge_label (build_graph es rs) (entry_a r) (entry_b r) =
           Some (py_or (rel_type r) ''relationship'')"
      using a by (simp add: build_graph_def)
    then show "(entry_a r, entry_b r, d) \<in> set (edges (build_graph es rs)) \<longleftrightarrow>
         d = (if rel_type r = None \<or> rel_type r = Some [] then ''relationship''
              else the (rel_type r))"
      unfolding wf_edge_label [OF wf_digraph_build_graph] py_or_unfold by auto
  qed
  show ?thesis by (rule conjI [OF n r])
qed

theorem build_graph_defaults_witness:
  "map_of (g_node (build_graph entries_ex [rel_ex 1 1 2 None, rel_ex 2 2 1 (Some [])])) 2 =
     Some \<lparr>label = Some ''ID 2'', node_category = Some ''default''\<rparr> \<and>
   (\<forall>d. (1, 2, d) \<in> set (edges (build_graph entries_ex [rel_ex 1 1 2 None, rel_ex 2 2 1 (Some [])]))
      \<longleftrightarrow> d = ''relationship'')"
proof -
  let ?rs = "[rel_ex 1 1 2 None, rel_ex 2 2 1 (Some [])]"
  let ?e = "entry_ex 2 None (Some [])"
  let ?r = "rel_ex 1 1 2 None"
  note th = build_graph_defaults [of entries_ex ?rs]
  have "entries_ex = [entry_ex 1 (Some ''Ann'') (Some ''Character'')] @ ?e # [] \<and>
      entry_id ?e \<notin> entry_id ` set ([] :: entry_row list) \<longrightarrow>
      map_of (g_node (build_graph entries_ex ?rs)) (entry_id ?e) =
        Some \<lparr>label = Some (if title ?e = None \<or> title ?e = Some []
                            then ''ID '' @ py_str_int (entry_id ?e) else the (title ?e)),
              node_category = Some (if category ?e = None \<or> category ?e = Some []
                            then ''default'' else the (category ?e))\<rparr>"
    by (rule th [THEN conjunct1, THEN spec, THEN spec, THEN spec])
  then have n: "map_of (g_node (build_graph entries_ex ?rs)) 2 =
     Some \<lparr>label = Some ''ID 2'', node_category = Some ''default''\<rparr>"
    by (simp add: entries_ex_def entry_ex_def py_str_int_def digits_of.simps digit_char_def)
  have "?rs = [] @ ?r # [rel_ex 2 2 1 (Some [])] \<and>
      (\<forall>r' \<in> set [rel_ex 2 2 1 (Some [])]. \<not> (entry_a r' = entry_a ?r \<and> entry_b r' = entry_b ?r)) \<and>
      entry_a ?r \<in> entry_id ` set entries_ex \<and> entry_b ?r \<in> entry_id ` set entries_ex \<longrightarrow>
      (\<forall>d. (entry_a ?r, entry_b ?r, d) \<in> set (edges (build_graph entries_ex ?rs)) \<longleftrightarrow>
         d = (if rel_type ?r = None \<or> rel_type ?r = Some [] then ''relationship''
              else the (rel_type ?r)))"
    by (rule th [THEN conjunct2, THEN spec, THEN spec, THEN spec])
  then have "\<forall>d. (1, 2, d) \<in> set (edges (build_graph entries_ex ?rs)) \<longleftrightarrow> d = ''relationship''"
    by (simp add: entries_ex_def entry_ex_def rel_ex_def)
  with n show ?thesis by (intro conjI)
qed

section \<open>Claims about the record store\<close>

text \<open>
  C9.  After \<^verbatim>\<open>delete_entry_and_relationships\<close> no relationship row of the store has the
  deleted id as \<^verbatim>\<open>entry_a\<close> or \<^verbatim>\<open>entry_b\<close>, the entry itself is gone, and the rows that
  remain are exactly the rows that did not mention the id.
\<close>

theorem delete_entry_cascade:
  "(\<forall>r \<in> set (relationships (delete_entry_and_relationships eid db)).
      entry_a r \<noteq> eid \<and> entry_b r \<noteq> eid) \<and>
   (\<forall>e \<in> set (entries (delete_entry_and_relationships eid db)). entry_id e \<noteq> eid) \<and>
   set (relationships (delete_entry_and_relationships eid db)) =
     {r \<in> set (relationships db). entry_a r \<noteq> eid \<and> entry_b r \<noteq> eid} \<and>
   set (entries (delete_entry_and_relationships eid db)) =
     {e \<in> set (entries db). entry_id e \<noteq> eid}"
  by (auto simp: delete_entry_and_relationships_def Let_def)

theorem delete_entry_cascade_witness:
  "relationships (delete_entry_and_relationships 1
      \<lparr>entries = entries_ex,
       relationships = [rel_ex 1 1 2 None, rel_ex 2 2 1 None, rel_ex 3 2 2 (Some ''Self'')]\<rparr>) =
     [rel_ex 3 2 2 (Some ''Self'')] \<and>
   entry_a (rel_ex 3 2 2 (Some ''Self'')) \<noteq> 1 \<and> entry_b (rel_ex 3 2 2 (Some ''Self'')) \<noteq> 1"
proof -
  let ?db = "\<lparr>entries = entries_ex,
       relationships = [rel_ex 1 1 2 None, rel_ex 2 2 1 None, rel_ex 3 2 2 (Some ''Self'')]\<rparr>"
  have a: "relationships (delete_entry_and_relationships 1 ?db) = [rel_ex 3 2 2 (Some ''Self'')]"
    by (simp add: delete_entry_and_relationships_def Let_def rel_ex_def)
  have b: "\<forall>r \<in> set (relationships (delete_entry_and_relationships 1 ?db)).
      entry_a r \<noteq> 1 \<and> entry_b r \<noteq> 1"
    by (rule delete_entry_cascade [of 1 ?db, THEN conjunct1])
  have m: "rel_ex 3 2 2 (Some ''Self'') \<in> set (relationships (delete_entry_and_relationships 1 ?db))"
    unfolding a by simp
  show ?thesis using a bspec [OF b m] by (intro conjI) blast+
qed

section \<open>Claims about the edge curve\<close>




section \<open>Claims about the viewer\<close>

subsection \<open>Successors, predecessors and edges\<close>

text \<open>
  The successors of a node are the targets of its outgoing edges.  For the predecessors to be
  the sources of its incoming edges, \<^verbatim>\<open>_pred\<close> has to record the edges that \<^verbatim>\<open>_succ\<close> records,
  which \<^verbatim>\<open>add_node\<close> and \<^verbatim>\<open>add_edge\<close> maintain: every graph that \<^const>\<open>build_graph\<close>
  returns satisfies \<^const>\<open>succ_pred_agree\<close>.
\<close>

lemma pred_label_add_edge:
  assumes "wf_digraph G" "has_node G u" "has_node G v"
  shows "pred_label (add_edge u v l G) v' u' =
           (if u' = u \<and> v' = v then Some l else pred_label G v' u')"
  using assms
  by (auto simp: add_edge_present pred_label_def update_conv' get_or_empty_def split: option.splits)

lemma labels_add_node:
  assumes "wf_digraph G"
  shows "edge_label (add_node n a G) u v = edge_label G u v"
    "pred_label (add_node n a G) v u = pred_label G v u"
proof -
  have ks: "keys (g_succ G) = nodes G" "keys (g_pred G) = nodes G"
    using assms by (simp_all add: wf_digraph_def wf_adjacency_def)
  show "edge_label (add_node n a G) u v = edge_label G u v"
  proof (cases "n \<in> set (keys (g_succ G))")
    case True
    then show ?thesis by (simp add: add_node_def edge_label_def)
  next
    case False
    then have "map_of (g_succ G) n = None" by (simp add: keys_def map_of_eq_None_iff)
    then show ?thesis using False by (simp add: add_node_def edge_label_def update_conv')
  qed
  show "pred_label (add_node n a G) v u = pred_label G v u"
  proof (cases "n \<in> set (keys (g_succ G))")
    case True
    then show ?thesis by (simp add: add_node_def pred_label_def)
  next
    case False
    then have "n \<notin> set (keys (g_pred G))" by (simp add: ks)
    then have "map_of (g_pred G) n = None" by (simp add: keys_def map_of_eq_None_iff)
    then show ?thesis
      using False by (simp add: add_node_def pred_label_def get_or_empty_def update_conv')
  qed
qed

lemma labels_agree_fold_entries:
  "wf_digraph G \<Longrightarrow> \<forall>u v. edge_label G u v = pred_label G v u \<Longrightarrow>
     \<forall>u v. edge_label (fold add_entry_node es G) u v = pred_label (fold add_entry_node es G) v u"
proof (induction es arbitrary: G)
  case Nil
  then show ?case by simp
next
  case (Cons e es)
  have "\<forall>u v. edge_label (add_entry_node e G) u v = pred_label (add_entry_node e G) v u"
    using Cons.prems by (simp add: add_entry_node_def Let_def labels_add_node)
  then show ?case
    using Cons.IH [OF wf_digraph_add_entry_node [OF Cons.prems(1)]] by simp
qed

lemma labels_agree_fold_relationships:
  "wf_digraph G \<Longrightarrow> \<forall>u v. edge_label G u v = pred_label G v u \<Longrightarrow>
     \<forall>u v. edge_label (fold add_relationship_edge rs G) u v =
            pred_label (fold add_relationship_edge rs G) v u"
proof (induction rs arbitrary: G)
  case Nil
  then show ?case by simp
next
  case (Cons r rs)
  have "\<forall>u v. edge_label (add_relationship_edge r G) u v = pred_label (add_relationship_edge r G) v u"
    using Cons.prems
    by (simp add: add_relationship_edge_def Let_def edge_label_add_edge pred_label_add_edge)
  then show ?case
    using Cons.IH [OF wf_digraph_add_relationship_edge [OF Cons.prems(1)]] by simp
qed

lemma labels_agree_succ_pred_agree:
  assumes "wf_digraph G" "\<forall>u v. edge_label G u v = pred_label G v u"
  shows "succ_pred_agree G"
proof -
  have a: "\<And>u nbrs v d. (u, nbrs) \<in> set (g_succ G) \<Longrightarrow> (v, d) \<in> set nbrs \<Longrightarrow>
      pred_label G v u = Some d"
  proof -
    fix u nbrs v d
    assume "(u, nbrs) \<in> set (g_succ G)" "(v, d) \<in> set nbrs"
    then have "(u, v, d) \<in> set (edges G)" by (auto simp: in_edges_iff)
    then have "edge_label G u v = Some d" by (simp add: wf_edge_label [OF assms(1)])
    then show "pred_label G v u = Some d" using assms(2) by simp
  qed
  have b: "\<And>v nbrs u d. (v, nbrs) \<in> set (g_pred G) \<Longrightarrow> (u, d) \<in> set nbrs \<Longrightarrow>
      edge_label G u v = Some d"
  proof -
    fix v nbrs u d
    assume m: "(v, nbrs) \<in> set (g_pred G)" "(u, d) \<in> set nbrs"
    have dk: "distinct (map fst (g_pred G))"
      using assms(1) by (simp add: wf_digraph_def wf_adjacency_def keys_def)
    have dn: "distinct (map fst nbrs)"
      using assms(1) m(1) by (auto simp: wf_digraph_def wf_adjacency_def keys_def)
    have "map_of (g_pred G) v = Some nbrs" using dk m(1) by simp
    moreover have "map_of nbrs u = Some d" using dn m(2) by simp
    ultimately have "pred_label G v u = Some d" by (simp add: pred_label_def get_or_empty_def)
    then show "edge_label G u v = Some d" using assms(2) by simp
  qed
  show ?thesis unfolding succ_pred_agree_def using a b by blast
qed

lemma succ_pred_agree_build_graph: "succ_pred_agree (build_graph es rs)"
proof -
  have e: "\<forall>u v. edge_label DiGraph u v = pred_label DiGraph v u"
    by (simp add: edge_label_def pred_label_def DiGraph_def get_or_empty_def)
  have "\<forall>u v. edge_label (build_graph es rs) u v = pred_label (build_graph es rs) v u"
    unfolding build_graph_def
    by (rule labels_agree_fold_relationships [OF wf_fold_entries [OF wf_digraph_empty]
          labels_agree_fold_entries [OF wf_digraph_empty e]])
  then show ?thesis
    by (rule labels_agree_succ_pred_agree [OF wf_digraph_build_graph])
qed

lemma wf_successors:
  assumes "wf_digraph G" "has_node G n"
  shows "\<exists>succ. successors G n = Inr succ \<and> set succ = {m. \<exists>d. (n, m, d) \<in> set (edges G)}"
proof -
  have dk: "distinct (map fst (g_succ G))"
    using assms(1) by (simp add: wf_digraph_def wf_adjacency_def keys_def)
  have "n \<in> set (keys (g_succ G))"
    using assms by (simp add: wf_digraph_def wf_adjacency_def has_node_def)
  then obtain nbrs where nb: "map_of (g_succ G) n = Some nbrs"
    by (cases "map_of (g_succ G) n") (auto simp: keys_def map_of_eq_None_iff)
  have s: "successors G n = Inr (keys nbrs)" by (simp add: successors_def nb)
  have "\<And>m. m \<in> set (keys nbrs) \<longleftrightarrow> (\<exists>d. (n, m, d) \<in> set (edges G))"
  proof
    fix m
    assume "m \<in> set (keys nbrs)"
    then obtain d where "(m, d) \<in> set nbrs" by (auto simp: keys_def)
    moreover have "(n, nbrs) \<in> set (g_succ G)" using nb by (rule map_of_SomeD)
    ultimately show "\<exists>d. (n, m, d) \<in> set (edges G)" by (auto simp: in_edges_iff)
  next
    fix m
    assume "\<exists>d. (n, m, d) \<in> set (edges G)"
    then obtain d nbrs' where e: "(n, nbrs') \<in> set (g_succ G)" "(m, d) \<in> set nbrs'"
      by (auto simp: in_edges_iff)
    have "map_of (g_succ G) n = Some nbrs'" using dk e(1) by simp
    then have "nbrs' = nbrs" using nb by simp
    then show "m \<in> set (keys nbrs)" using e(2) by (force simp: keys_def)
  qed
  then have "set (keys nbrs) = {m. \<exists>d. (n, m, d) \<in> set (edges G)}" by blast
  then show ?thesis using s by blast
qed

lemma wf_predecessors:
  assumes "wf_digraph G" "succ_pred_agree G" "has_node G n"
  shows "\<exists>pred. predecessors G n = Inr pred \<and> set pred = {m. \<exists>d. (m, n, d) \<in> set (edges G)}"
proof -
  have "n \<in> set (keys (g_pred G))"
    using assms by (simp add: wf_digraph_def wf_adjacency_def has_node_def)
  then obtain pn where nb: "map_of (g_pred G) n = Some pn"
    by (cases "map_of (g_pred G) n") (auto simp: keys_def map_of_eq_None_iff)
  have p: "predecessors G n = Inr (keys pn)" by (simp add: predecessors_def nb)
  have g: "get_or_empty (g_pred G) n = pn" by (simp add: get_or_empty_def nb)
  have a1: "\<forall>(u, nbrs) \<in> set (g_succ G). \<forall>(v, d) \<in> set nbrs. pred_label G v u = Some d"
    and a2: "\<forall>(v, nbrs) \<in> set (g_pred G). \<forall>(u, d) \<in> set nbrs. edge_label G u v = Some d"
    using assms(2) by (simp_all add: succ_pred_agree_def)
  have "\<And>m. m \<in> set (keys pn) \<longleftrightarrow> (\<exists>d. (m, n, d) \<in> set (edges G))"
  proof
    fix m
    assume "m \<in> set (keys pn)"
    then obtain d where d: "(m, d) \<in> set pn" by (auto simp: keys_def)
    have "(n, pn) \<in> set (g_pred G)" using nb by (rule map_of_SomeD)
    then have "edge_label G m n = Some d" using a2 d by blast
    then have "(m, n, d) \<in> set (edges G)" by (simp add: wf_edge_label [OF assms(1)])
    then show "\<exists>d. (m, n, d) \<in> set (edges G)" by blast
  next
    fix m
    assume "\<exists>d. (m, n, d) \<in> set (edges G)"
    then obtain d nbrs where e: "(m, nbrs) \<in> set (g_succ G)" "(n, d) \<in> set nbrs"
      by (auto simp: in_edges_iff)
    have "pred_label G n m = Some d" using a1 e by blast
    then have "map_of pn m = Some d" by (simp add: pred_label_def g)
    then have "(m, d) \<in> set pn" by (rule map_of_SomeD)
    then show "m \<in> set (keys pn)" by (force simp: keys_def)
  qed
  then have "set (keys pn) = {m. \<exists>d. (m, n, d) \<in> set (edges G)}" by blast
  then show ?thesis using p by blast
qed

text \<open>
  C4.  Clicking a node \<open>n\<close> of the graph never fails.  The successors of \<open>n\<close> are the nodes
  \<open>m\<close> with an edge from \<open>n\<close> to \<open>m\<close> in the graph, its predecessors the nodes \<open>m\<close> with an
  edge from \<open>m\<close> to \<open>n\<close>.  The click gives opacity 1 to the node items of \<open>n\<close>, of its
  successors and of its predecessors and opacity 0.25 to every other node item; an edge item
  and its label get opacity 1 when both endpoints are among those nodes, and 0.2 otherwise.
  The node items stay those of the same nodes and the edge items those of the same edges.
\<close>

theorem highlight_neighbors_opacity:
  assumes "wf_digraph (graph_of v)" "succ_pred_agree (graph_of v)" "has_node (graph_of v) n"
  shows "\<exists>succ pred v'.
     successors (graph_of v) n = Inr succ \<and>
     set succ = {m. \<exists>d. (n, m, d) \<in> set (edges (graph_of v))} \<and>
     predecessors (graph_of v) n = Inr pred \<and>
     set pred = {m. \<exists>d. (m, n, d) \<in> set (edges (graph_of v))} \<and>
     highlight_neighbors n v = Inr v' \<and>
     keys (node_items v') = keys (node_items v) \<and>
     (\<forall>(m, it) \<in> set (node_items v').
        opacity it = (if m \<in> insert n (set succ \<union> set pred) then 1 else 0.25)) \<and>
     map src_id (edge_items v') = map src_id (edge_items v) \<and>
     map dst_id (edge_items v') = map dst_id (edge_items v) \<and>
     (\<forall>e \<in> set (edge_items v').
        edge_opacity e = (if src_id e \<in> insert n (set succ \<union> set pred) \<and>
                             dst_id e \<in> insert n (set succ \<union> set pred) then 1 else 0.2) \<and>
        label_opacity e = edge_opacity e)"
proof -
  obtain succ where su: "successors (graph_of v) n = Inr succ"
    "set succ = {m. \<exists>d. (n, m, d) \<in> set (edges (graph_of v))}"
    using wf_successors [OF assms(1,3)] by (elim exE conjE)
  obtain pred where pr: "predecessors (graph_of v) n = Inr pred"
    "set pred = {m. \<exists>d. (m, n, d) \<in> set (edges (graph_of v))}"
    using wf_predecessors [OF assms] by (elim exE conjE)
  let ?H = "insert n (set succ \<union> set pred)"
  let ?v' = "v\<lparr>node_items :=
                 map (\<lambda>(m, it). (m, it\<lparr>opacity := (if m \<in> ?H then 1 else 0.25)\<rparr>)) (node_items v),
               edge_items :=
                 map (\<lambda>e. let highlight = (src_id e \<in> ?H \<and> dst_id e \<in> ?H)
                           in e\<lparr>edge_opacity := (if highlight then 1 else 0.2),
                                label_opacity := (if highlight then 1 else 0.2)\<rparr>) (edge_items v)\<rparr>"
  have h: "highlight_neighbors n v = Inr ?v'"
    by (simp add: highlight_neighbors_def su(1) pr(1) Let_def)
  have k: "keys (node_items ?v') = keys (node_items v)"
    by (simp add: keys_def case_prod_beta comp_def)
  have nn: "\<forall>(m, it) \<in> set (node_items ?v'). opacity it = (if m \<in> ?H then 1 else 0.25)"
    by auto
  have s: "map src_id (edge_items ?v') = map src_id (edge_items v)"
    by (simp add: comp_def Let_def)
  have d: "map dst_id (edge_items ?v') = map dst_id (edge_items v)"
    by (simp add: comp_def Let_def)
  have e: "\<forall>e \<in> set (edge_items ?v').
        edge_opacity e = (if src_id e \<in> ?H \<and> dst_id e \<in> ?H then 1 else 0.2) \<and>
        label_opacity e = edge_opacity e"
    by (auto simp: Let_def)
  show ?thesis
    by (rule exI [of _ succ], rule exI [of _ pred], rule exI [of _ ?v'])
       (rule conjI [OF su(1) conjI [OF su(2) conjI [OF pr(1) conjI [OF pr(2) conjI [OF h
          conjI [OF k conjI [OF nn conjI [OF s conjI [OF d e]]]]]]]]])
qed

lemmas viewer_eval =
  graph_ex_def viewer_ex_def wf_digraph_def wf_adjacency_def has_node_def nodes_def keys_def

text \<open>
  In the example graph, with the edges \<open>1 \<rightarrow> 2\<close>, \<open>2 \<rightarrow> 4\<close> and \<open>3 \<rightarrow> 1\<close>, a click on node 1
  highlights its successor 2 and its predecessor 3 and dims node 4; the edge \<open>2 \<rightarrow> 4\<close> is
  dimmed with its label.
\<close>

theorem highlight_neighbors_opacity_witness:
  "edges (graph_of viewer_ex) = [(1, 2, ''Ally''), (2, 4, ''Mentor''), (3, 1, ''Enemy'')] \<and>
   (\<exists>succ pred v'.
      successors (graph_of viewer_ex) 1 = Inr succ \<and> set succ = {2} \<and>
      predecessors (graph_of viewer_ex) 1 = Inr pred \<and> set pred = {3} \<and>
      highlight_neighbors 1 viewer_ex = Inr v' \<and>
      map (\<lambda>(m, it). (m, opacity it)) (node_items v') = [(1, 1), (2, 1), (3, 1), (4, 0.25)] \<and>
      map (\<lambda>e. (src_id e, dst_id e, edge_opacity e, label_opacity e)) (edge_items v') =
        [(1, 2, 1, 1), (3, 1, 1, 1), (2, 4, 0.2, 0.2)])"
proof -
  have wf: "wf_digraph (graph_of viewer_ex)"
    by (simp add: viewer_eval)
  have ag: "succ_pred_agree (graph_of viewer_ex)"
    by (simp add: viewer_ex_def graph_ex_def succ_pred_agree_def pred_label_def edge_label_def
          get_or_empty_def)
  have hn: "has_node (graph_of viewer_ex) 1"
    by (simp add: viewer_eval)
  obtain succ pred v' where r:
    "successors (graph_of viewer_ex) 1 = Inr succ"
    "set succ = {m. \<exists>d. (1, m, d) \<in> set (edges (graph_of viewer_ex))}"
    "predecessors (graph_of viewer_ex) 1 = Inr pred"
    "set pred = {m. \<exists>d. (m, 1, d) \<in> set (edges (graph_of viewer_ex))}"
    "highlight_neighbors 1 viewer_ex = Inr v'"
    using highlight_neighbors_opacity [OF wf ag hn] by (elim exE conjE)
  have ed: "edges (graph_of viewer_ex) = [(1, 2, ''Ally''), (2, 4, ''Mentor''), (3, 1, ''Enemy'')]"
    by (simp add: viewer_ex_def graph_ex_def edges_def)
  have H: "set succ = {2}" "set pred = {3}"
    unfolding r(2) r(4) ed by auto
  have sp: "successors (graph_of viewer_ex) 1 = Inr [2]"
    "predecessors (graph_of viewer_ex) 1 = Inr [3]"
    by (simp_all add: viewer_eval successors_def predecessors_def)
  have n: "map (\<lambda>(m, it). (m, opacity it)) (node_items v') = [(1, 1), (2, 1), (3, 1), (4, 0.25)]"
    using r(5) sp
    by (auto simp: highlight_neighbors_def viewer_ex_def node_item_ex_def Let_def)
  have e: "map (\<lambda>e. (src_id e, dst_id e, edge_opacity e, label_opacity e)) (edge_items v') =
        [(1, 2, 1, 1), (3, 1, 1, 1), (2, 4, 0.2, 0.2)]"
    using r(5) sp
    by (auto simp: highlight_neighbors_def viewer_ex_def edge_item_ex_def Let_def)
  show ?thesis
    by (rule conjI [OF ed], rule exI [of _ succ], rule exI [of _ pred], rule exI [of _ v'])
       (rule conjI [OF r(1) conjI [OF H(1) conjI [OF r(3) conjI [OF H(2) conjI [OF r(5)
          conjI [OF n e]]]]]])
qed

lemma draw_edges_no_items: "node_items v = [] \<Longrightarrow> draw_edges tk v es seen = []"
  by (induction es arbitrary: seen) (auto simp: Let_def)

lemma draw_graph_empty:
  assumes "nodes (graph_of v) = []"
  shows "node_items (draw_graph tk v) = []" "edge_items (draw_graph tk v) = []"
proof -
  have "g_node (graph_of v) = []" using assms by (simp add: nodes_def keys_def)
  then show "node_items (draw_graph tk v) = []" "edge_items (draw_graph tk v) = []"
    by (simp_all add: draw_graph_def Let_def draw_edges_no_items)
qed

lemma empty_scene_noop:
  assumes "node_items v = []" "edge_items v = []"
  shows "scene_items v = []" "isNull (itemsBoundingRect tk v)"
    "export_png tk chosen v w = w" "fit_to_view tk v = v"
proof -
  show s: "scene_items v = []" using assms by (simp add: scene_items_def)
  show n: "isNull (itemsBoundingRect tk v)" by (simp add: itemsBoundingRect_def s isNull_def)
  show "export_png tk chosen v w = w" using n by (simp add: export_png_def Let_def)
  show "fit_to_view tk v = v" using n by (simp add: fit_to_view_def Let_def)
qed

text \<open>
  C10.  On a graph without nodes the constructor succeeds and draws nothing: the scene has
  no items and its bounding rectangle is null.  Then \<^verbatim>\<open>export_png\<close> leaves the files alone
  and shows no dialog, whatever the user would have answered, and \<^verbatim>\<open>fit_to_view\<close> leaves the
  viewer and its view as they are.  The same holds after any later \<^verbatim>\<open>draw_graph\<close>.
\<close>

theorem empty_graph_noop:
  assumes "nodes G = []"
  shows "(\<exists>v. GraphViewer tk G rid = Inr v \<and> graph_of v = G \<and> scene_items v = [] \<and> fitted v = None \<and>
            isNull (itemsBoundingRect tk v) \<and>
            export_png tk chosen v w = w \<and> fit_to_view tk v = v) \<and>
         (\<forall>v. graph_of v = G \<longrightarrow>
            scene_items (draw_graph tk v) = [] \<and>
            isNull (itemsBoundingRect tk (draw_graph tk v)) \<and>
            export_png tk chosen (draw_graph tk v) w = w \<and>
            fit_to_view tk (draw_graph tk v) = draw_graph tk v)"
proof -
  have nv: "\<not> valid_root G rid"
    using assms by (simp add: valid_root_def has_node_def split: option.splits)
  let ?v0 = "\<lparr>graph_of = G, root_id = rid, current_layout = ''force'',
               positions = compute_force_layout (spring_layout tk 0) G,
               node_items = [], edge_items = [], fitted = None, layout_calls = Suc 0\<rparr>"
  let ?v = "draw_graph tk ?v0"
  have e: "node_items ?v = []" "edge_items ?v = []"
    using assms by (simp_all add: draw_graph_empty)
  have f: "fit_to_view tk ?v = ?v" by (rule empty_scene_noop [OF e])
  have g: "GraphViewer tk G rid = Inr ?v"
    using nv by (simp add: GraphViewer_def Let_def f)
  have h: "graph_of ?v = G" "fitted ?v = None" by (simp_all add: draw_graph_def Let_def)
  have a: "\<exists>v. GraphViewer tk G rid = Inr v \<and> graph_of v = G \<and> scene_items v = [] \<and> fitted v = None \<and>
            isNull (itemsBoundingRect tk v) \<and>
            export_png tk chosen v w = w \<and> fit_to_view tk v = v"
    using g h empty_scene_noop [OF e] by blast
  have b: "\<forall>v. graph_of v = G \<longrightarrow>
            scene_items (draw_graph tk v) = [] \<and>
            isNull (itemsBoundingRect tk (draw_graph tk v)) \<and>
            export_png tk chosen (draw_graph tk v) w = w \<and>
            fit_to_view tk (draw_graph tk v) = draw_graph tk v"
  proof (intro allI impI)
    fix v :: viewer
    assume "graph_of v = G"
    then have "nodes (graph_of v) = []" using assms by simp
    then have "node_items (draw_graph tk v) = []" "edge_items (draw_graph tk v) = []"
      by (simp_all add: draw_graph_empty)
    from empty_scene_noop [OF this]
    show "scene_items (draw_graph tk v) = [] \<and>
            isNull (itemsBoundingRect tk (draw_graph tk v)) \<and>
            export_png tk chosen (draw_graph tk v) w = w \<and>
            fit_to_view tk (draw_graph tk v) = draw_graph tk v"
      by simp
  qed
  show ?thesis by (rule conjI [OF a b])
qed

theorem empty_graph_noop_witness:
  "\<exists>v. GraphViewer toolkit_ex DiGraph None = Inr v \<and> graph_of v = DiGraph \<and> scene_items v = [] \<and>
      fitted v = None \<and> isNull (itemsBoundingRect toolkit_ex v) \<and>
      export_png toolkit_ex ''relationship_graph.png'' v \<lparr>files = Map.empty, dialogs_shown = 0\<rparr> =
        \<lparr>files = Map.empty, dialogs_shown = 0\<rparr> \<and>
      fit_to_view toolkit_ex v = v"
proof -
  have n: "nodes DiGraph = []" by (simp add: nodes_def DiGraph_def keys_def)
  show ?thesis
    by (rule empty_graph_noop [OF n, THEN conjunct1])
qed

section \<open>Claims about the layouts\<close>

lemma compute_tree_layout_result:
  assumes "tree_layers G r = Inr L"
  shows "compute_tree_layout G (Some r) =
     Inr (fold (\<lambda>(depth, ns). place_row depth ns) (sort_layers (to_undirected G) L) Map.empty)"
  using assms by (simp add: compute_tree_layout_def)

lemma tree_layers_nodes:
  assumes "wf_digraph G" "has_node G r"
  shows "\<exists>L. tree_layers G r = Inr L \<and> distinct (layer_nodes L) \<and>
     set (layer_nodes L) = set (nodes G)"
proof -
  obtain L V where b: "bfs (to_undirected G) [] {r} [(r, 0)] = Inr (L, V)" "L \<noteq> []"
    "distinct (layer_nodes L)" "set (layer_nodes L) = V" "V \<subseteq> set (nodes G)"
    using bfs_from_root [OF assms] by (elim exE conjE)
  let ?us = "filter (\<lambda>n. n \<notin> V) (nodes G)"
  let ?T = "L @ map (\<lambda>i. (Max (set (keys L)) + 1 + int i, [?us ! i])) [0..<length ?us]"
  have t: "tree_layers G r = Inr ?T" by (rule tree_layers_result [OF b(1,2)])
  have ln: "layer_nodes ?T = layer_nodes L @ ?us"
    by (simp only: layer_nodes_append layer_nodes_singletons)
  have dn: "distinct (nodes G)" using assms(1) by (simp add: wf_digraph_def)
  have d: "distinct (layer_nodes ?T)"
    unfolding ln using b(3,4) dn by auto
  have s: "set (layer_nodes ?T) = set (nodes G)"
    unfolding ln using b(4,5) by auto
  show ?thesis
    by (rule exI [of _ ?T]) (rule conjI [OF t conjI [OF d s]])
qed


text \<open>
  C2.  For a root that is a node of the graph, the traversal returns the layers \<open>L\<close> of the
  nodes reachable from the root along edges read in either direction.  The nodes of
  \<^verbatim>\<open>G.nodes\<close> not reached are appended in order, the \<open>i\<close>-th of them alone in the new layer
  of depth \<open>max_depth + 1 + i\<close>, where \<open>max_depth\<close> is the greatest depth of \<open>L\<close>.  So their
  depths are strictly increasing and pairwise distinct, and each of them is placed at
  \<open>x = 0\<close>, \<open>y = depth * 170\<close>.  With the root 1 joined to 2 only, the isolated nodes 3 and
  4 get the depths 2 and 3.
\<close>

theorem tree_layout_unreached_depths:
  assumes "wf_digraph G" "has_node G r"
  shows "\<exists>L V pos.
     bfs (to_undirected G) [] {r} [(r, 0)] = Inr (L, V) \<and> L \<noteq> [] \<and>
     V = (set (und_pairs G))\<^sup>* `` {r} \<and>
     tree_layers G r =
       Inr (L @ map (\<lambda>i. (Max (set (keys L)) + 1 + int i, [filter (\<lambda>n. n \<notin> V) (nodes G) ! i]))
                   [0..<length (filter (\<lambda>n. n \<notin> V) (nodes G))]) \<and>
     compute_tree_layout G (Some r) = Inr pos \<and>
     (\<forall>i < length (filter (\<lambda>n. n \<notin> V) (nodes G)).
        pos (filter (\<lambda>n. n \<notin> V) (nodes G) ! i) =
          Some (0, real_of_int ((Max (set (keys L)) + 1 + int i) * 170)))"
proof -
  obtain L V where b: "bfs (to_undirected G) [] {r} [(r, 0)] = Inr (L, V)" "L \<noteq> []"
    "V = (set (und_pairs G))\<^sup>* `` {r}"
    "distinct (layer_nodes L)" "set (layer_nodes L) = V" "V \<subseteq> set (nodes G)"
    using bfs_from_root [OF assms] by (elim exE conjE)
  let ?us = "filter (\<lambda>n. n \<notin> V) (nodes G)"
  let ?m = "Max (set (keys L))"
  let ?T = "L @ map (\<lambda>i. (?m + 1 + int i, [?us ! i])) [0..<length ?us]"
  let ?S = "sort_layers (to_undirected G) ?T"
  let ?pos = "fold (\<lambda>(depth, ns). place_row depth ns) ?S Map.empty"
  have t: "tree_layers G r = Inr ?T" by (rule tree_layers_result [OF b(1,2)])
  have c: "compute_tree_layout G (Some r) = Inr ?pos" by (rule compute_tree_layout_result [OF t])
  have ln: "layer_nodes ?T = layer_nodes L @ ?us"
    by (simp only: layer_nodes_append layer_nodes_singletons)
  have dn: "distinct (nodes G)" using assms(1) by (simp add: wf_digraph_def)
  have "distinct (layer_nodes ?T)" unfolding ln using b(4,5) dn by auto
  then have dS: "distinct (layer_nodes ?S)" by (simp only: distinct_layer_nodes_sort)
  have p: "\<forall>i < length ?us. ?pos (?us ! i) = Some (0, real_of_int ((?m + 1 + int i) * 170))"
  proof (intro allI impI)
    fix i
    assume i: "i < length ?us"
    have "(?m + 1 + int i, [?us ! i]) \<in> set ?T" using i by auto
    then have "(?m + 1 + int i, sort_key (\<lambda>n. - int (degree (to_undirected G) n)) [?us ! i]) \<in> set ?S"
      by (rule in_sort_layers)
    then have m: "(?m + 1 + int i, [?us ! i]) \<in> set ?S" by simp
    have "?pos ([?us ! i] ! 0) =
        Some (- real_of_int ((int (length [?us ! i]) - 1) * 150) / 2 + real (0::nat) * 150,
              real_of_int ((?m + 1 + int i) * 170))"
      by (rule place_all_at [OF dS m]) simp
    then show "?pos (?us ! i) = Some (0, real_of_int ((?m + 1 + int i) * 170))" by simp
  qed
  show ?thesis
    by (rule exI [of _ L], rule exI [of _ V], rule exI [of _ ?pos])
       (rule conjI [OF b(1) conjI [OF b(2) conjI [OF b(3) conjI [OF t conjI [OF c p]]]]])
qed

theorem tree_layout_unreached_depths_witness:
  "(\<exists>pos. compute_tree_layout graph_tree_ex (Some 1) = Inr pos \<and>
      pos 3 = Some (0, 340) \<and> pos 4 = Some (0, 510)) \<and>
   tree_layers graph_tree_ex 1 = Inr [(0, [1]), (1, [2]), (2, [3]), (3, [4])]"
proof -
  have wf: "wf_digraph graph_tree_ex"
    by (simp add: graph_tree_ex_def wf_digraph_def wf_adjacency_def nodes_def keys_def)
  have hn: "has_node graph_tree_ex 1"
    by (simp add: graph_tree_ex_def has_node_def nodes_def keys_def)
  have ug: "to_undirected graph_tree_ex =
      \<lparr>ug_node = [(1, no_attrs), (2, no_attrs), (3, no_attrs), (4, no_attrs)],
       ug_adj = [(1, [(2, ''Ally'')]), (2, [(1, ''Ally'')]), (3, []), (4, [])]\<rparr>"
    by (simp add: graph_tree_ex_def to_undirected_def edges_def ug_add_node_def ug_add_edge_def
          ug_ensure_node_def Graph_def keys_def get_or_empty_def attrs_update_def no_attrs_def Let_def)
  have bf: "bfs (to_undirected graph_tree_ex) [] {1} [(1, 0)] = Inr ([(0, [1]), (1, [2])], {1, 2})"
    unfolding ug by (simp add: neighbors_def keys_def layers_append_def get_or_empty_def insert_commute)
  obtain L V pos where r:
    "bfs (to_undirected graph_tree_ex) [] {1} [(1, 0)] = Inr (L, V)"
    "tree_layers graph_tree_ex 1 =
       Inr (L @ map (\<lambda>i. (Max (set (keys L)) + 1 + int i, [filter (\<lambda>n. n \<notin> V) (nodes graph_tree_ex) ! i]))
                   [0..<length (filter (\<lambda>n. n \<notin> V) (nodes graph_tree_ex))])"
    "compute_tree_layout graph_tree_ex (Some 1) = Inr pos"
    "\<forall>i < length (filter (\<lambda>n. n \<notin> V) (nodes graph_tree_ex)).
        pos (filter (\<lambda>n. n \<notin> V) (nodes graph_tree_ex) ! i) =
          Some (0, real_of_int ((Max (set (keys L)) + 1 + int i) * 170))"
    using tree_layout_unreached_depths [OF wf hn] by (elim exE conjE)
  have LV: "L = [(0, [1]), (1, [2])]" "V = {1, 2}" using r(1) bf by simp_all
  have us: "filter (\<lambda>n. n \<notin> V) (nodes graph_tree_ex) = [3, 4]"
    by (simp add: LV graph_tree_ex_def nodes_def keys_def)
  have m: "Max (set (keys L)) = 1" by (simp add: LV keys_def)
  have p3: "pos 3 = Some (0, 340)" using r(4) [unfolded us m, THEN spec, of 0] by simp
  have p4: "pos 4 = Some (0, 510)" using r(4) [unfolded us m, THEN spec, of 1] by simp
  have tl: "tree_layers graph_tree_ex 1 = Inr [(0, [1]), (1, [2]), (2, [3]), (3, [4])]"
    using r(2) unfolding us m by (simp add: LV upt_rec)
  show ?thesis using r(3) p3 p4 tl by blast
qed

text \<open>
  C3.  For a root that is a node of the graph the layout succeeds and gives a position to
  exactly the nodes of the graph, each node lying in exactly one layer.  A layer of depth
  \<open>d\<close> with the nodes \<open>ns\<close> in order of discovery is sorted by descending undirected degree,
  nodes of equal degree keeping their order, and the \<open>i\<close>-th node of the sorted layer is put
  at \<open>x = - (count - 1) * 150 / 2 + i * 150\<close>, \<open>y = d * 170\<close>, \<open>count\<close> being the number of
  nodes of the layer.
\<close>

theorem tree_layout_positions:
  assumes "wf_digraph G" "has_node G r"
  shows "\<exists>L pos.
     tree_layers G r = Inr L \<and> compute_tree_layout G (Some r) = Inr pos \<and>
     dom pos = set (nodes G) \<and>
     distinct (concat (map snd L)) \<and> set (concat (map snd L)) = set (nodes G) \<and>
     (\<forall>(d, ns) \<in> set L.
        (\<forall>i < length ns.
           pos (sorted_layer G ns ! i) =
             Some (- real_of_int ((int (length ns) - 1) * horizontal_gap) / 2
                     + real i * real_of_int horizontal_gap,
                   real_of_int (d * vertical_gap))) \<and>
        (\<forall>i j. i \<le> j \<and> j < length ns \<longrightarrow>
           degree (to_undirected G) (sorted_layer G ns ! j) \<le>
           degree (to_undirected G) (sorted_layer G ns ! i)) \<and>
        (\<forall>k. filter (\<lambda>n. degree (to_undirected G) n = k) (sorted_layer G ns) =
             filter (\<lambda>n. degree (to_undirected G) n = k) ns)) \<and>
     horizontal_gap = 150 \<and> vertical_gap = 170"
proof -
  let ?UG = "to_undirected G"
  let ?f = "\<lambda>n. - int (degree ?UG n)"
  obtain L where t: "tree_layers G r = Inr L" "distinct (layer_nodes L)"
    "set (layer_nodes L) = set (nodes G)"
    using tree_layers_nodes [OF assms] by (elim exE conjE)
  let ?S = "sort_layers ?UG L"
  let ?pos = "fold (\<lambda>(depth, ns). place_row depth ns) ?S Map.empty"
  have c: "compute_tree_layout G (Some r) = Inr ?pos" by (rule compute_tree_layout_result [OF t(1)])
  have dS: "distinct (layer_nodes ?S)" using t(2) by (simp only: distinct_layer_nodes_sort)
  have dom: "dom ?pos = set (nodes G)"
    by (simp add: dom_place_all set_layer_nodes_sort t(3))
  have d: "distinct (concat (map snd L))" using t(2) by (simp add: layer_nodes_def)
  have s: "set (concat (map snd L)) = set (nodes G)" using t(3) by (simp add: layer_nodes_def)
  have rows: "\<forall>(d, ns) \<in> set L.
        (\<forall>i < length ns.
           ?pos (sorted_layer G ns ! i) =
             Some (- real_of_int ((int (length ns) - 1) * horizontal_gap) / 2
                     + real i * real_of_int horizontal_gap,
                   real_of_int (d * vertical_gap))) \<and>
        (\<forall>i j. i \<le> j \<and> j < length ns \<longrightarrow>
           degree ?UG (sorted_layer G ns ! j) \<le> degree ?UG (sorted_layer G ns ! i)) \<and>
        (\<forall>k. filter (\<lambda>n. degree ?UG n = k) (sorted_layer G ns) =
             filter (\<lambda>n. degree ?UG n = k) ns)"
  proof (intro ballI, clarify, intro conjI allI impI)
    fix d ns i
    assume m: "(d, ns) \<in> set L" and i: "i < length ns"
    have mS: "(d, sort_key ?f ns) \<in> set ?S" by (rule in_sort_layers [OF m])
    have "?pos (sort_key ?f ns ! i) =
        Some (- real_of_int ((int (length (sort_key ?f ns)) - 1) * 150) / 2 + real i * 150,
              real_of_int (d * 170))"
      by (rule place_all_at [OF dS mS]) (simp add: i)
    then show "?pos (sorted_layer G ns ! i) =
             Some (- real_of_int ((int (length ns) - 1) * horizontal_gap) / 2
                     + real i * real_of_int horizontal_gap,
                   real_of_int (d * vertical_gap))"
      by (simp add: sorted_layer_def horizontal_gap_def vertical_gap_def)
  next
    fix d ns i j
    assume m: "(d, ns) \<in> set L" and ij: "i \<le> j \<and> j < length ns"
    have "sorted (map ?f (sort_key ?f ns))" by (rule sorted_sort_key)
    then have "map ?f (sort_key ?f ns) ! i \<le> map ?f (sort_key ?f ns) ! j"
      using ij by (intro sorted_nth_mono) simp_all
    then show "degree ?UG (sorted_layer G ns ! j) \<le> degree ?UG (sorted_layer G ns ! i)"
      using ij by (simp add: sorted_layer_def)
  next
    fix d ns k
    have "filter (\<lambda>n. ?f n = - int k) (sort_key ?f ns) = filter (\<lambda>n. ?f n = - int k) ns"
      by (rule sort_key_stable)
    then show "filter (\<lambda>n. degree ?UG n = k) (sorted_layer G ns) = filter (\<lambda>n. degree ?UG n = k) ns"
      by (simp add: sorted_layer_def)
  qed
  have g: "horizontal_gap = 150 \<and> vertical_gap = 170"
    by (simp add: horizontal_gap_def vertical_gap_def)
  show ?thesis
    by (rule exI [of _ L], rule exI [of _ ?pos])
       (rule conjI [OF t(1) conjI [OF c conjI [OF dom conjI [OF d conjI [OF s conjI [OF rows g]]]]]])
qed

theorem tree_layout_positions_witness:
  "\<exists>pos. compute_tree_layout graph_rows_ex (Some 1) = Inr pos \<and>
      tree_layers graph_rows_ex 1 = Inr [(0, [1]), (1, [2, 3]), (2, [4])] \<and>
      pos 1 = Some (0, 0) \<and> pos 3 = Some (- 75, 170) \<and> pos 2 = Some (75, 170) \<and>
      pos 4 = Some (0, 340)"
proof -
  have wf: "wf_digraph graph_rows_ex"
    by (simp add: graph_rows_ex_def wf_digraph_def wf_adjacency_def nodes_def keys_def)
  have hn: "has_node graph_rows_ex 1"
    by (simp add: graph_rows_ex_def has_node_def nodes_def keys_def)
  have tl: "tree_layers graph_rows_ex 1 = Inr [(0, [1]), (1, [2, 3]), (2, [4])]"
    by code_simp
  have s0: "sorted_layer graph_rows_ex [1] = [1]" by (simp add: sorted_layer_def)
  have s1: "sorted_layer graph_rows_ex [2, 3] = [3, 2]" by code_simp
  have s2: "sorted_layer graph_rows_ex [4] = [4]" by (simp add: sorted_layer_def)
  obtain L pos where r:
    "tree_layers graph_rows_ex 1 = Inr L"
    "compute_tree_layout graph_rows_ex (Some 1) = Inr pos"
    "\<forall>(d, ns) \<in> set L.
        (\<forall>i < length ns.
           pos (sorted_layer graph_rows_ex ns ! i) =
             Some (- real_of_int ((int (length ns) - 1) * horizontal_gap) / 2
                     + real i * real_of_int horizontal_gap,
                   real_of_int (d * vertical_gap))) \<and>
        (\<forall>i j. i \<le> j \<and> j < length ns \<longrightarrow>
           degree (to_undirected graph_rows_ex) (sorted_layer graph_rows_ex ns ! j) \<le>
           degree (to_undirected graph_rows_ex) (sorted_layer graph_rows_ex ns ! i)) \<and>
        (\<forall>k. filter (\<lambda>n. degree (to_undirected graph_rows_ex) n = k) (sorted_layer graph_rows_ex ns) =
             filter (\<lambda>n. degree (to_undirected graph_rows_ex) n = k) ns)"
    using tree_layout_positions [OF wf hn] by (elim exE conjE)
  have L: "L = [(0, [1]), (1, [2, 3]), (2, [4])]" using r(1) tl by simp
  have row: "\<And>d ns i. (d, ns) \<in> set L \<Longrightarrow> i < length ns \<Longrightarrow>
      pos (sorted_layer graph_rows_ex ns ! i) =
        Some (- real_of_int ((int (length ns) - 1) * horizontal_gap) / 2
                + real i * real_of_int horizontal_gap, real_of_int (d * vertical_gap))"
    using r(3) by blast
  have p1: "pos 1 = Some (0, 0)"
    using row [of 0 "[1]" 0] by (simp add: L s0 horizontal_gap_def vertical_gap_def)
  have p3: "pos 3 = Some (- 75, 170)"
    using row [of 1 "[2, 3]" 0] by (simp add: L s1 horizontal_gap_def vertical_gap_def)
  have p2: "pos 2 = Some (75, 170)"
    using row [of 1 "[2, 3]" 1] by (simp add: L s1 horizontal_gap_def vertical_gap_def)
  have p4: "pos 4 = Some (0, 340)"
    using row [of 2 "[4]" 0] by (simp add: L s2 horizontal_gap_def vertical_gap_def)
  show ?thesis
    by (rule exI [of _ pos]) (rule conjI [OF r(2) conjI [OF tl conjI [OF p1 conjI [OF p3 conjI [OF p2 p4]]]]])
qed

subsection \<open>A root that is no node of the graph\<close>

lemma fit_to_view_fields:
  "graph_of (fit_to_view tk v) = graph_of v" "root_id (fit_to_view tk v) = root_id v"
  "current_layout (fit_to_view tk v) = current_layout v" "positions (fit_to_view tk v) = positions v"
  "layout_calls (fit_to_view tk v) = layout_calls v"
  by (simp_all add: fit_to_view_def Let_def)

lemma draw_graph_fields:
  "graph_of (draw_graph tk v) = graph_of v" "root_id (draw_graph tk v) = root_id v"
  "current_layout (draw_graph tk v) = current_layout v" "positions (draw_graph tk v) = positions v"
  "layout_calls (draw_graph tk v) = layout_calls v"
  by (simp_all add: draw_graph_def Let_def)

lemma apply_positions_fields:
  "graph_of (apply_positions v) = graph_of v" "root_id (apply_positions v) = root_id v"
  "current_layout (apply_positions v) = current_layout v" "positions (apply_positions v) = positions v"
  "layout_calls (apply_positions v) = layout_calls v"
  by (simp_all add: apply_positions_def update_all_edges_def)

lemma apply_force_layout_fields:
  "graph_of (apply_force_layout tk v) = graph_of v" "root_id (apply_force_layout tk v) = root_id v"
  "current_layout (apply_force_layout tk v) = ''force''"
  "positions (apply_force_layout tk v) =
     compute_force_layout (spring_layout tk (layout_calls v)) (graph_of v)"
  "layout_calls (apply_force_layout tk v) = Suc (layout_calls v)"
  by (simp_all add: apply_force_layout_def fit_to_view_fields apply_positions_fields)

lemma compute_force_layout_apply:
  "compute_force_layout spring G n =
     (case spring G n of None \<Rightarrow> None | Some (x, y) \<Rightarrow> Some (x * 320, y * 320))"
  by (simp add: compute_force_layout_def Let_def)

lemma clicks_invalid_root:
  assumes "\<not> valid_root (graph_of v) (root_id v)" "current_layout v = ''force''"
    "layout_calls v = Suc k"
    "positions v = compute_force_layout (spring_layout tk k) (graph_of v)"
  shows "\<exists>v'. clicks tk bs v = Inr v' \<and> graph_of v' = graph_of v \<and> root_id v' = root_id v \<and>
     current_layout v' = ''force'' \<and>
     layout_calls v' = Suc (k + count_list bs ForceLayoutButton) \<and>
     positions v' =
       compute_force_layout (spring_layout tk (k + count_list bs ForceLayoutButton)) (graph_of v)"
  using assms
proof (induction bs arbitrary: v k)
  case Nil
  then show ?case by simp
next
  case (Cons b bs)
  show ?case
  proof (cases b)
    case TreeLayoutButton
    have "click tk b v = Inr v" using Cons.prems(1) by (simp add: TreeLayoutButton apply_tree_layout_def)
    then show ?thesis using Cons.IH [OF Cons.prems] by (simp add: TreeLayoutButton)
  next
    case ForceLayoutButton
    let ?v = "apply_force_layout tk v"
    have c: "click tk b v = Inr ?v" by (simp add: ForceLayoutButton)
    have "\<exists>v'. clicks tk bs ?v = Inr v' \<and> graph_of v' = graph_of ?v \<and> root_id v' = root_id ?v \<and>
       current_layout v' = ''force'' \<and>
       layout_calls v' = Suc (Suc k + count_list bs ForceLayoutButton) \<and>
       positions v' =
         compute_force_layout (spring_layout tk (Suc k + count_list bs ForceLayoutButton)) (graph_of ?v)"
      using Cons.prems(1,3) by (intro Cons.IH) (simp_all add: apply_force_layout_fields)
    then show ?thesis by (simp add: c ForceLayoutButton apply_force_layout_fields)
  qed
qed

lemma compute_tree_layout_invalid_root:
  assumes "wf_digraph G" "\<not> valid_root G rid"
  shows "compute_tree_layout G rid = Inl NetworkXError"
proof (cases rid)
  case None
  then show ?thesis by (simp add: compute_tree_layout_def)
next
  case (Some r)
  then have "r \<notin> set (nodes G)" using assms(2) by (simp add: valid_root_def has_node_def)
  then have "r \<notin> set (keys (ug_adj (to_undirected G)))"
    by (simp add: to_undirected_props(1) [OF assms(1)])
  then have "neighbors (to_undirected G) r = Inl NetworkXError" by (rule neighbors_absent)
  then show ?thesis by (simp add: Some compute_tree_layout_def tree_layers_def Let_def)
qed

lemma graph_tree_ex_facts:
  "wf_digraph graph_tree_ex" "\<not> valid_root graph_tree_ex None"
  "\<not> valid_root graph_tree_ex (Some 9)"
  by (simp_all add: graph_tree_ex_def wf_digraph_def wf_adjacency_def nodes_def keys_def
        valid_root_def has_node_def)

text \<open>
  C7, as stated, fails in what it says of the layout engine.  \<^verbatim>\<open>compute_tree_layout\<close> makes
  no test of the root and has no value that reports a missing root: called with the root
  \<^verbatim>\<open>None\<close>, or with a root that is no node of the graph, it fails with the
  \<^verbatim>\<open>NetworkXError\<close> that the first \<^verbatim>\<open>UG.neighbors\<close> raises, an exception that neither it nor
  its callers catch.  The graph of the example has the nodes 1 to 4.
\<close>

theorem compute_tree_layout_invalid_root_raises:
  "\<not> valid_root graph_tree_ex None \<and>
   compute_tree_layout graph_tree_ex None = Inl NetworkXError \<and>
   \<not> valid_root graph_tree_ex (Some 9) \<and>
   compute_tree_layout graph_tree_ex (Some 9) = Inl NetworkXError"
  using graph_tree_ex_facts
    compute_tree_layout_invalid_root [OF graph_tree_ex_facts(1,2)]
    compute_tree_layout_invalid_root [OF graph_tree_ex_facts(1,3)]
  by simp

text \<open>
  C7, amended.  The test of the root is made by the callers, which never call the tree
  layout when the root is \<^verbatim>\<open>None\<close> or no node of the graph.  The constructor then succeeds
  with the force layout: each node is at the position that the first call of
  \<^verbatim>\<open>nx.spring_layout\<close> gave it, scaled by 320.  The tree-layout button changes nothing,
  and after any sequence of presses of the two layout buttons, none of which fails, the
  viewer holds the force layout of the latest call of \<^verbatim>\<open>nx.spring_layout\<close>, one call
  having been made by the constructor and one by every press of the force-layout button.
  \<^verbatim>\<open>compute_tree_layout\<close> itself, were it called on such a root, would raise
  \<^verbatim>\<open>NetworkXError\<close>.
\<close>

theorem invalid_root_force_layout:
  assumes "\<not> valid_root G rid"
  shows "\<exists>v. GraphViewer tk G rid = Inr v \<and> graph_of v = G \<and> root_id v = rid \<and>
     current_layout v = ''force'' \<and>
     (\<forall>n. positions v n =
        (case spring_layout tk 0 G n of None \<Rightarrow> None | Some (x, y) \<Rightarrow> Some (x * 320, y * 320))) \<and>
     apply_tree_layout tk v = Inr v \<and>
     (\<forall>bs. \<exists>v'. clicks tk bs v = Inr v' \<and> graph_of v' = G \<and> root_id v' = rid \<and>
        current_layout v' = ''force'' \<and>
        (\<forall>n. positions v' n =
           (case spring_layout tk (count_list bs ForceLayoutButton) G n of
              None \<Rightarrow> None | Some (x, y) \<Rightarrow> Some (x * 320, y * 320)))) \<and>
     (wf_digraph G \<longrightarrow> compute_tree_layout G rid = Inl NetworkXError)"
proof -
  let ?v0 = "\<lparr>graph_of = G, root_id = rid, current_layout = ''force'',
               positions = compute_force_layout (spring_layout tk 0) G,
               node_items = [], edge_items = [], fitted = None, layout_calls = Suc 0\<rparr>"
  let ?v = "fit_to_view tk (draw_graph tk ?v0)"
  have g: "GraphViewer tk G rid = Inr ?v" using assms by (simp add: GraphViewer_def Let_def)
  have f: "graph_of ?v = G" "root_id ?v = rid" "current_layout ?v = ''force''"
    "positions ?v = compute_force_layout (spring_layout tk 0) G"
    "layout_calls ?v = Suc 0"
    by (simp_all add: fit_to_view_fields draw_graph_fields)
  have p: "\<forall>n. positions ?v n =
        (case spring_layout tk 0 G n of None \<Rightarrow> None | Some (x, y) \<Rightarrow> Some (x * 320, y * 320))"
    unfolding f(4) by (simp add: compute_force_layout_apply)
  have nv: "\<not> valid_root (graph_of ?v) (root_id ?v)" unfolding f by (rule assms)
  have a: "apply_tree_layout tk ?v = Inr ?v" using nv by (simp add: apply_tree_layout_def)
  have c: "\<forall>bs. \<exists>v'. clicks tk bs ?v = Inr v' \<and> graph_of v' = G \<and> root_id v' = rid \<and>
        current_layout v' = ''force'' \<and>
        (\<forall>n. positions v' n =
           (case spring_layout tk (count_list bs ForceLayoutButton) G n of
              None \<Rightarrow> None | Some (x, y) \<Rightarrow> Some (x * 320, y * 320)))"
  proof
    fix bs
    have "\<exists>v'. clicks tk bs ?v = Inr v' \<and> graph_of v' = graph_of ?v \<and> root_id v' = root_id ?v \<and>
       current_layout v' = ''force'' \<and>
       layout_calls v' = Suc (0 + count_list bs ForceLayoutButton) \<and>
       positions v' =
         compute_force_layout (spring_layout tk (0 + count_list bs ForceLayoutButton)) (graph_of ?v)"
      by (rule clicks_invalid_root [OF nv f(3) f(5)]) (simp only: f)
    then obtain v' where r: "clicks tk bs ?v = Inr v'" "graph_of v' = G" "root_id v' = rid"
      "current_layout v' = ''force''"
      "positions v' = compute_force_layout (spring_layout tk (count_list bs ForceLayoutButton)) G"
      unfolding f(1) f(2) by auto
    have "\<forall>n. positions v' n =
           (case spring_layout tk (count_list bs ForceLayoutButton) G n of
              None \<Rightarrow> None | Some (x, y) \<Rightarrow> Some (x * 320, y * 320))"
      unfolding r(5) by (simp add: compute_force_layout_apply)
    then show "\<exists>v'. clicks tk bs ?v = Inr v' \<and> graph_of v' = G \<and> root_id v' = rid \<and>
        current_layout v' = ''force'' \<and>
        (\<forall>n. positions v' n =
           (case spring_layout tk (count_list bs ForceLayoutButton) G n of
              None \<Rightarrow> None | Some (x, y) \<Rightarrow> Some (x * 320, y * 320)))"
      using r(1-4) by (intro exI [of _ v'] conjI)
  qed
  have e: "wf_digraph G \<longrightarrow> compute_tree_layout G rid = Inl NetworkXError"
    using compute_tree_layout_invalid_root [OF _ assms] by blast
  show ?thesis
    by (rule exI [of _ ?v])
       (rule conjI [OF g conjI [OF f(1) conjI [OF f(2) conjI [OF f(3) conjI [OF p conjI [OF a conjI [OF c e]]]]]]])
qed

text \<open>
  With the root 9 and a spring layout whose \<open>k\<close>-th call puts every node at
  \<open>(k + 1, -0.5)\<close>, node 1 is at \<open>(320, -160)\<close> after the constructor and at
  \<open>(960, -160)\<close> after the presses force, tree, force.
\<close>

theorem invalid_root_force_layout_witness:
  "\<exists>v. GraphViewer toolkit_ex graph_tree_ex (Some 9) = Inr v \<and> current_layout v = ''force'' \<and>
     positions v 1 = Some (320, - 160) \<and> positions v 9 = None \<and>
     apply_tree_layout toolkit_ex v = Inr v \<and>
     (\<exists>v'. clicks toolkit_ex [ForceLayoutButton, TreeLayoutButton, ForceLayoutButton] v = Inr v' \<and>
        current_layout v' = ''force'' \<and> positions v' 1 = Some (960, - 160)) \<and>
     compute_tree_layout graph_tree_ex (Some 9) = Inl NetworkXError"
proof -
  obtain v where r: "GraphViewer toolkit_ex graph_tree_ex (Some 9) = Inr v"
    "current_layout v = ''force''"
    "\<forall>n. positions v n =
        (case spring_layout toolkit_ex 0 graph_tree_ex n of
           None \<Rightarrow> None | Some (x, y) \<Rightarrow> Some (x * 320, y * 320))"
    "apply_tree_layout toolkit_ex v = Inr v"
    "\<forall>bs. \<exists>v'. clicks toolkit_ex bs v = Inr v' \<and> graph_of v' = graph_tree_ex \<and>
        root_id v' = Some 9 \<and> current_layout v' = ''force'' \<and>
        (\<forall>n. positions v' n =
           (case spring_layout toolkit_ex (count_list bs ForceLayoutButton) graph_tree_ex n of
              None \<Rightarrow> None | Some (x, y) \<Rightarrow> Some (x * 320, y * 320)))"
    "wf_digraph graph_tree_ex \<longrightarrow> compute_tree_layout graph_tree_ex (Some 9) = Inl NetworkXError"
    using invalid_root_force_layout [OF graph_tree_ex_facts(3), of toolkit_ex] by (elim exE conjE)
  have e: "compute_tree_layout graph_tree_ex (Some 9) = Inl NetworkXError"
    using r(6) graph_tree_ex_facts(1) by (rule mp)
  have p: "positions v 1 = Some (320, - 160)" "positions v 9 = None"
    unfolding r(3) [THEN spec]
    by (simp_all add: toolkit_ex_def graph_tree_ex_def nodes_def keys_def)
  obtain v' where s: "clicks toolkit_ex [ForceLayoutButton, TreeLayoutButton, ForceLayoutButton] v = Inr v'"
    "current_layout v' = ''force''"
    "\<forall>n. positions v' n =
           (case spring_layout toolkit_ex
                   (count_list [ForceLayoutButton, TreeLayoutButton, ForceLayoutButton] ForceLayoutButton)
                   graph_tree_ex n of
              None \<Rightarrow> None | Some (x, y) \<Rightarrow> Some (x * 320, y * 320))"
    using r(5) [THEN spec, of "[ForceLayoutButton, TreeLayoutButton, ForceLayoutButton]"]
    by (elim exE conjE)
  have q: "positions v' 1 = Some (960, - 160)"
    unfolding s(3) [THEN spec]
    by (simp add: toolkit_ex_def graph_tree_ex_def nodes_def keys_def)
  have c: "\<exists>v'. clicks toolkit_ex [ForceLayoutButton, TreeLayoutButton, ForceLayoutButton] v = Inr v' \<and>
        current_layout v' = ''force'' \<and> positions v' 1 = Some (960, - 160)"
    by (rule exI [of _ v']) (rule conjI [OF s(1) conjI [OF s(2) q]])
  show ?thesis
    by (rule exI [of _ v])
       (rule conjI [OF r(1) conjI [OF r(2) conjI [OF p(1) conjI [OF p(2) conjI [OF r(4) conjI [OF c e]]]]]])
qed

end
